theory Spec2Isabelle
  imports Main "HOL-Library.List_Lexorder" "HOL-Library.Char_ord" "HOL-Library.Multiset"
begin

section \<open>Data model\<close>

text \<open>
  The solver of \<^verbatim>\<open>solver.go\<close> (package vsolver). Project names are Go strings, compared
  bytewise. A \<^verbatim>\<open>Version\<close> is a Go interface value: \<open>None\<close> is the nil interface, \<open>Some v\<close>
  a concrete version of the opaque type \<open>'v\<close>. Constraints are values of the opaque type
  \<open>'c\<close>; their methods are taken as parameters (record \<open>externals\<close>).
\<close>

type_synonym ProjectName = string

type_synonym 'v Version = "'v option"

record 'v ProjectAtom =
  Name :: ProjectName
  Version :: "'v Version"

record 'c ProjectDep =
  pdName :: ProjectName
  Constraint :: 'c

record ('v, 'c) Dependency =
  Depender :: "'v ProjectAtom"
  Dep :: "'c ProjectDep"

record 'v LockedProject =
  lpName :: ProjectName
  lpVersion :: "'v Version"

text \<open>
  \<^verbatim>\<open>ProjectInfo\<close>: the atom, the manifest's two dependency lists (\<^verbatim>\<open>GetDependencies()\<close>,
  \<^verbatim>\<open>GetDevDependencies()\<close>) and the lock (\<open>None\<close> is a nil \<^verbatim>\<open>Lock\<close>, \<open>Some ps\<close> one
  whose \<^verbatim>\<open>Projects()\<close> is \<open>ps\<close>). \<^verbatim>\<open>rp.Name()\<close> is the name of \<^verbatim>\<open>rp.pa\<close>.
\<close>

record ('v, 'c) ProjectInfo =
  pa :: "'v ProjectAtom"
  Dependencies :: "'c ProjectDep list"
  DevDependencies :: "'c ProjectDep list"
  Lock :: "'v LockedProject list option"

text \<open>
  The errors the solver returns. \<open>SourceError\<close> stands for any error value handed back
  by the source manager; the other constructors are the solver's own failure kinds.
\<close>

datatype ('v, 'c) failure =
    SourceError string
  | CannotResolve ProjectName
  | VersionNotAllowed "'v ProjectAtom" "('v, 'c) Dependency list" 'c
  | DisjointConstraint "('v, 'c) Dependency" "('v, 'c) Dependency list" "('v, 'c) Dependency list" 'c
  | ConstraintNotAllowed "('v, 'c) Dependency" "'v Version"
  | NoVersion ProjectName "('v, 'c) failure list"

text \<open>A Go panic ends the run; the model returns it as the left summand.\<close>

datatype panic = Panic string

text \<open>
  The source manager interface. Every method returns a Go pair (value, error); the solver
  sometimes reads the value and drops the error, so both components are kept.
\<close>

record ('v, 'c) SourceManager =
  RepoExists :: "ProjectName \<Rightarrow> bool \<times> ('v, 'c) failure option"
  VendorCodeExists :: "ProjectName \<Rightarrow> bool \<times> ('v, 'c) failure option"
  ListVersions :: "ProjectName \<Rightarrow> 'v Version list \<times> ('v, 'c) failure option"
  GetProjectInfo :: "'v ProjectAtom \<Rightarrow> ('v, 'c) ProjectInfo \<times> ('v, 'c) failure option"

text \<open>
  What the package takes from outside \<^verbatim>\<open>solver.go\<close>: the methods of the
  \<^verbatim>\<open>Constraint\<close> interface, the universal constraint, and the revision drawn by
  \<^verbatim>\<open>rand.Int63()\<close> when the package variable \<^verbatim>\<open>nilpa\<close> is initialised.
\<close>

record ('v, 'c) externals =
  Matches :: "'c \<Rightarrow> 'v Version \<Rightarrow> bool"
  MatchesAny :: "'c \<Rightarrow> 'c \<Rightarrow> bool"
  Intersect :: "'c \<Rightarrow> 'c \<Rightarrow> 'c"
  anyConstraint :: 'c
  nilRevision :: 'v

definition nilpa :: "('v, 'c) externals \<Rightarrow> 'v ProjectAtom" where
  "nilpa X = \<lparr>Name = [], Version = Some (nilRevision X)\<rparr>"

definition emptyProjectAtom :: "'v ProjectAtom" where
  "emptyProjectAtom = \<lparr>Name = [], Version = None\<rparr>"

text \<open>
  Modelled from the spec: the version queue (type \<^verbatim>\<open>versionQueue\<close>, whose file is not
  part of the sources). It holds the project name, the source manager it was made with,
  the remaining candidates (the head is \<^verbatim>\<open>current()\<close>), the failure log, the
  \<^verbatim>\<open>failed\<close> flag and the two bookkeeping flags.
\<close>

record ('v, 'c) versionQueue =
  ref :: ProjectName
  qsm :: "('v, 'c) SourceManager"
  candidates :: "'v Version list"
  fails :: "('v, 'c) failure list"
  failed :: bool
  hasLock :: bool
  allLoaded :: bool

text \<open>
  Modelled from the spec: the selection (type \<^verbatim>\<open>selection\<close>): the committed atoms in
  commit order and the Go map from a name to its inbound edges in creation order. A key
  of the map may carry an empty list.
\<close>

record ('v, 'c) selection =
  projects :: "'v ProjectAtom list"
  deps :: "ProjectName \<rightharpoonup> ('v, 'c) Dependency list"

text \<open>
  The solver struct. \<open>unsel\<close> is the slice \<^verbatim>\<open>sl\<close> of the frontier (its \<^verbatim>\<open>cmp\<close> is
  always \<^verbatim>\<open>s.unselectedComparator\<close>). \<open>versions\<close> is a slice of pointers: the queues
  live in the object store \<open>mem\<close>, and \<open>nextp\<close> is the next unused address. The logger
  is left out: it changes no state. \<open>attempts\<close> is only ever incremented.
\<close>

record ('v, 'c) solver =
  sm :: "('v, 'c) SourceManager"
  latest :: "ProjectName set"
  sel :: "('v, 'c) selection"
  unsel :: "ProjectName list"
  versions :: "nat list"
  rp :: "('v, 'c) ProjectInfo"
  rlm :: "ProjectName \<rightharpoonup> 'v LockedProject"
  attempts :: nat
  mem :: "nat \<Rightarrow> ('v, 'c) versionQueue"
  nextp :: nat

record ('v, 'c) Result =
  Projects :: "'v ProjectAtom list"
  SolveFailure :: "('v, 'c) failure option"

section \<open>The selection\<close>

text \<open>
  Modelled from the spec: \<^verbatim>\<open>getDependenciesOn\<close> returns the inbound edges in creation
  order (none for a name that is no key), \<^verbatim>\<open>getConstraint\<close> the intersection of their
  constraints, starting from the universal constraint, and \<^verbatim>\<open>selected\<close> scans
  \<open>projects\<close> for the name.
\<close>

definition getDependenciesOn :: "('v, 'c) selection \<Rightarrow> ProjectName \<Rightarrow> ('v, 'c) Dependency list" where
  "getDependenciesOn sl n = (case deps sl n of None \<Rightarrow> [] | Some ds \<Rightarrow> ds)"

definition getConstraint :: "('v, 'c) externals \<Rightarrow> ('v, 'c) selection \<Rightarrow> ProjectName \<Rightarrow> 'c" where
  "getConstraint X sl n =
     foldl (Intersect X) (anyConstraint X) (map (\<lambda>d. Constraint (Dep d)) (getDependenciesOn sl n))"

definition selected :: "('v, 'c) selection \<Rightarrow> ProjectName \<Rightarrow> 'v ProjectAtom \<times> bool" where
  "selected sl n =
     (case find (\<lambda>p. Name p = n) (projects sl) of
        None \<Rightarrow> (emptyProjectAtom, False)
      | Some p \<Rightarrow> (p, True))"

section \<open>The frontier\<close>

text \<open>\<^verbatim>\<open>nextUnselected\<close>: the first element of the slice, if there is one.\<close>

definition nextUnselected :: "('v, 'c) solver \<Rightarrow> ProjectName \<times> bool" where
  "nextUnselected s = (case unsel s of [] \<Rightarrow> ([], False) | n # _ \<Rightarrow> (n, True))"

text \<open>
  The body of \<^verbatim>\<open>unselectedComparator\<close> once the two names are read from the slice.
\<close>

definition compareNames :: "('v, 'c) solver \<Rightarrow> ProjectName \<Rightarrow> ProjectName \<Rightarrow> bool" where
  "compareNames s iname jname =
     (if iname = jname then False
      else let rname = Name (pa (rp s)) in
        if iname = rname then True
        else if jname = rname then False
        else let ilock = (rlm s iname \<noteq> None); jlock = (rlm s jname \<noteq> None) in
          if ilock \<and> \<not> jlock then True
          else if \<not> ilock \<and> jlock then False
          else if ilock \<and> jlock then iname < jname
          else let iv = length (fst (ListVersions (sm s) iname));
                   jv = length (fst (ListVersions (sm s) jname)) in
            if iv = 0 \<and> jv \<noteq> 0 then True
            else if iv \<noteq> 0 \<and> jv = 0 then False
            else if iv \<noteq> jv then iv < jv
            else iname < jname)"

text \<open>
  \<^verbatim>\<open>unselectedComparator(i, j)\<close> reads \<^verbatim>\<open>s.unsel.sl[i]\<close> and \<^verbatim>\<open>s.unsel.sl[j]\<close>; an index
  out of range panics.
\<close>

definition unselectedComparator :: "('v, 'c) solver \<Rightarrow> nat \<Rightarrow> nat \<Rightarrow> panic + bool" where
  "unselectedComparator s i j =
     (if i < length (unsel s) \<and> j < length (unsel s)
      then Inr (compareNames s (unsel s ! i) (unsel s ! j))
      else Inl (Panic ''index out of range''))"

text \<open>
  Modelled from the spec: \<^verbatim>\<open>unselected.remove\<close> takes the name out of the slice (its first
  occurrence; the others keep their order), and the \<^verbatim>\<open>heap.Interface\<close> methods of the
  frontier are the usual ones: \<^verbatim>\<open>Less\<close> is \<^verbatim>\<open>cmp\<close>, \<^verbatim>\<open>Swap\<close> exchanges two slots,
  \<^verbatim>\<open>Push\<close> appends.
\<close>

definition remove :: "ProjectName \<Rightarrow> ProjectName list \<Rightarrow> ProjectName list" where
  "remove n sl = remove1 n sl"

definition Swap :: "('v, 'c) solver \<Rightarrow> nat \<Rightarrow> nat \<Rightarrow> ('v, 'c) solver" where
  "Swap s i j = s\<lparr>unsel := (unsel s)[i := unsel s ! j, j := unsel s ! i]\<rparr>"

text \<open>
  \<^verbatim>\<open>heap.Push\<close> of Go's container/heap: append, then sift the new last element up. In
  \<^verbatim>\<open>up\<close>, the parent of \<open>j\<close> is \<^verbatim>\<open>(j - 1) / 2\<close>, which Go truncates to 0 for \<open>j = 0\<close>.
\<close>

definition parent :: "nat \<Rightarrow> nat" where
  "parent j = (j - 1) div 2"

lemma parent_eq: "(parent j = j) = (j = 0)"
  by (cases j) (auto simp: parent_def)

function up :: "('v, 'c) solver \<Rightarrow> nat \<Rightarrow> panic + ('v, 'c) solver" where
  "up s j =
     (let i = parent j in
      if i = j then Inr s
      else case unselectedComparator s j i of
             Inl p \<Rightarrow> Inl p
           | Inr b \<Rightarrow> if \<not> b then Inr s else up (Swap s i j) i)"
  by pat_completeness auto
termination
  by (relation "measure (\<lambda>(s, j). j)") (auto simp: parent_def)

declare up.simps [simp del]

definition heapPush :: "('v, 'c) solver \<Rightarrow> ProjectName \<Rightarrow> panic + ('v, 'c) solver" where
  "heapPush s n = up (s\<lparr>unsel := unsel s @ [n]\<rparr>) (length (unsel s))"

section \<open>Marking a queue as failed\<close>

text \<open>
  \<^verbatim>\<open>fail\<close>: the loop over \<^verbatim>\<open>s.versions\<close> writes through the first pointer whose queue
  has the name, and returns.
\<close>

fun failLoop :: "(nat \<Rightarrow> ('v, 'c) versionQueue) \<Rightarrow> nat list \<Rightarrow> ProjectName \<Rightarrow> (nat \<Rightarrow> ('v, 'c) versionQueue)" where
  "failLoop h [] name = h"
| "failLoop h (a # as) name =
     (if ref (h a) = name then h(a := (h a)\<lparr>failed := True\<rparr>) else failLoop h as name)"

definition fail :: "('v, 'c) solver \<Rightarrow> ProjectName \<Rightarrow> ('v, 'c) solver" where
  "fail s name =
     (if Name (pa (rp s)) = name then s
      else s\<lparr>mem := failLoop (mem s) (versions s) name\<rparr>)"

section \<open>Declared dependencies and the satisfiability check\<close>

definition getDependenciesOf :: "('v, 'c) solver \<Rightarrow> 'v ProjectAtom \<Rightarrow> ('v, 'c) failure + 'c ProjectDep list" where
  "getDependenciesOf s pi =
     (case GetProjectInfo (sm s) pi of
        (info, Some err) \<Rightarrow> Inl err
      | (info, None) \<Rightarrow>
          Inr (if Name (pa (rp s)) = Name pi
               then Dependencies info @ DevDependencies info
               else Dependencies info))"

text \<open>The loop of phase 1 over the inbound edges: it marks and collects.\<close>

fun failparentLoop ::
  "('v, 'c) externals \<Rightarrow> 'v ProjectAtom \<Rightarrow> ('v, 'c) Dependency list \<Rightarrow> ('v, 'c) solver \<Rightarrow>
   ('v, 'c) Dependency list \<Rightarrow> ('v, 'c) solver \<times> ('v, 'c) Dependency list" where
  "failparentLoop X pi [] s failparent = (s, failparent)"
| "failparentLoop X pi (dep # ds) s failparent =
     (if \<not> Matches X (Constraint (Dep dep)) (Version pi)
      then failparentLoop X pi ds (fail s (Name (Depender dep))) (failparent @ [dep])
      else failparentLoop X pi ds s failparent)"

text \<open>The loop of phase 2 over the siblings of a disjoint dependency.\<close>

fun siblingLoop ::
  "('v, 'c) externals \<Rightarrow> 'c ProjectDep \<Rightarrow> ('v, 'c) Dependency list \<Rightarrow> ('v, 'c) solver \<Rightarrow>
   ('v, 'c) Dependency list \<Rightarrow> ('v, 'c) Dependency list \<Rightarrow>
   ('v, 'c) solver \<times> ('v, 'c) Dependency list \<times> ('v, 'c) Dependency list" where
  "siblingLoop X dep [] s failsib nofailsib = (s, failsib, nofailsib)"
| "siblingLoop X dep (sibling # ss) s failsib nofailsib =
     (if \<not> MatchesAny X (Constraint (Dep sibling)) (Constraint dep)
      then siblingLoop X dep ss (fail s (Name (Depender sibling))) (failsib @ [sibling]) nofailsib
      else siblingLoop X dep ss s failsib (nofailsib @ [sibling]))"

text \<open>The loop of phase 2 over the declared dependencies; it returns at the first failure.\<close>

fun depsLoop ::
  "('v, 'c) externals \<Rightarrow> 'v ProjectAtom \<Rightarrow> 'c ProjectDep list \<Rightarrow> ('v, 'c) solver \<Rightarrow>
   ('v, 'c) failure option \<times> ('v, 'c) solver" where
  "depsLoop X pi [] s = (None, s)"
| "depsLoop X pi (dep # ds) s =
     (let siblings = getDependenciesOn (sel s) (pdName dep);
          constraint = getConstraint X (sel s) (pdName dep)
      in if \<not> MatchesAny X constraint (Constraint dep)
         then (case siblingLoop X dep siblings s [] [] of
                 (s', failsib, nofailsib) \<Rightarrow>
                   (Some (DisjointConstraint \<lparr>Depender = pi, Dep = dep\<rparr> failsib nofailsib constraint), s'))
         else (case selected (sel s) (pdName dep) of
                 (selectedAtom, exists) \<Rightarrow>
                   if exists \<and> \<not> Matches X (Constraint dep) (Version selectedAtom)
                   then (Some (ConstraintNotAllowed \<lparr>Depender = pi, Dep = dep\<rparr> (Version selectedAtom)),
                         fail s (pdName dep))
                   else depsLoop X pi ds s))"

definition satisfiable ::
  "('v, 'c) externals \<Rightarrow> ('v, 'c) solver \<Rightarrow> 'v ProjectAtom \<Rightarrow>
   panic + (('v, 'c) failure option \<times> ('v, 'c) solver)" where
  "satisfiable X s pi =
     (if emptyProjectAtom = pi then Inl (Panic ''canary - checking version of empty ProjectAtom'')
      else let constraint = getConstraint X (sel s) (Name pi) in
        if \<not> Matches X constraint (Version pi)
        then (case failparentLoop X pi (getDependenciesOn (sel s) (Name pi)) s [] of
                (s', failparent) \<Rightarrow> Inr (Some (VersionNotAllowed pi failparent constraint), s'))
        else (case getDependenciesOf s pi of
                Inl err \<Rightarrow> Inr (Some err, s)
              | Inr ds \<Rightarrow> Inr (depsLoop X pi ds s)))"

section \<open>Lock reconciliation\<close>

definition getLockVersionIfValid :: "('v, 'c) externals \<Rightarrow> ('v, 'c) solver \<Rightarrow> ProjectName \<Rightarrow> 'v ProjectAtom" where
  "getLockVersionIfValid X s r =
     (if r \<in> latest s \<and> \<not> fst (RepoExists (sm s) r) then nilpa X
      else case rlm s r of
             None \<Rightarrow> nilpa X
           | Some lp \<Rightarrow>
               let constraint = getConstraint X (sel s) r in
               if \<not> Matches X constraint (lpVersion lp) then nilpa X
               else \<lparr>Name = lpName lp, Version = lpVersion lp\<rparr>)"

section \<open>The version queue\<close>

text \<open>
  Modelled from the spec: the operations of the version queue. \<^verbatim>\<open>newVersionQueue\<close> puts
  the locked version at the head when a lock-biased atom other than the nil-placeholder
  is supplied, and otherwise loads the upstream list at once. \<^verbatim>\<open>advance\<close> records the
  reason (if provided), drops the current head, and draws the upstream list when nothing
  is left and it was not loaded yet; only that draw can fail. \<^verbatim>\<open>isExhausted\<close>: no
  candidate remains, in the queue or upstream.
\<close>

definition newVersionQueue ::
  "('v, 'c) externals \<Rightarrow> ProjectName \<Rightarrow> 'v ProjectAtom \<Rightarrow> ('v, 'c) SourceManager \<Rightarrow>
   ('v, 'c) failure + ('v, 'c) versionQueue" where
  "newVersionQueue X r lockv m =
     (if lockv \<noteq> nilpa X
      then Inr \<lparr>ref = r, qsm = m, candidates = [Version lockv], fails = [], failed = False,
                hasLock = True, allLoaded = False\<rparr>
      else case ListVersions m r of
             (vs, Some err) \<Rightarrow> Inl err
           | (vs, None) \<Rightarrow>
               Inr \<lparr>ref = r, qsm = m, candidates = vs, fails = [], failed = False,
                    hasLock = False, allLoaded = True\<rparr>)"

definition current :: "('v, 'c) versionQueue \<Rightarrow> 'v Version" where
  "current q = (case candidates q of [] \<Rightarrow> None | v # _ \<Rightarrow> v)"

definition advance ::
  "('v, 'c) versionQueue \<Rightarrow> ('v, 'c) failure option \<Rightarrow> ('v, 'c) versionQueue \<times> ('v, 'c) failure option" where
  "advance q reason =
     (let q1 = q\<lparr>fails := fails q @ (case reason of None \<Rightarrow> [] | Some f \<Rightarrow> [f])\<rparr>;
          q2 = q1\<lparr>candidates := tl (candidates q1)\<rparr>
      in if candidates q2 = [] \<and> \<not> allLoaded q2
         then (case ListVersions (qsm q2) (ref q2) of
                 (vs, Some err) \<Rightarrow> (q2, Some err)
               | (vs, None) \<Rightarrow> (q2\<lparr>candidates := vs, allLoaded := True\<rparr>, None))
         else (q2, None))"

definition isExhausted :: "('v, 'c) versionQueue \<Rightarrow> bool" where
  "isExhausted q = (allLoaded q \<and> candidates q = [])"

text \<open>Allocation of a queue object: \<^verbatim>\<open>&versionQueue{...}\<close> yields an unused address.\<close>

definition alloc :: "('v, 'c) solver \<Rightarrow> ('v, 'c) versionQueue \<Rightarrow> nat \<times> ('v, 'c) solver" where
  "alloc s q = (nextp s, s\<lparr>mem := (mem s)(nextp s := q), nextp := Suc (nextp s)\<rparr>)"

section \<open>Committing and retracting an atom\<close>

fun selectLoop :: "'v ProjectAtom \<Rightarrow> 'c ProjectDep list \<Rightarrow> ('v, 'c) solver \<Rightarrow> panic + ('v, 'c) solver" where
  "selectLoop atom [] s = Inr s"
| "selectLoop atom (dep # ds) s =
     (let siblingsAndSelf = getDependenciesOn (sel s) (pdName dep) @ [\<lparr>Depender = atom, Dep = dep\<rparr>];
          s1 = s\<lparr>sel := (sel s)\<lparr>deps := (deps (sel s))(pdName dep \<mapsto> siblingsAndSelf)\<rparr>\<rparr>
      in if length siblingsAndSelf = 1
         then (case heapPush s1 (pdName dep) of
                 Inl p \<Rightarrow> Inl p
               | Inr s2 \<Rightarrow> selectLoop atom ds s2)
         else selectLoop atom ds s1)"

definition selectVersion :: "('v, 'c) solver \<Rightarrow> 'v ProjectAtom \<Rightarrow> panic + ('v, 'c) solver" where
  "selectVersion s atom =
     (let s1 = s\<lparr>unsel := remove (Name atom) (unsel s)\<rparr>;
          s2 = s1\<lparr>sel := (sel s1)\<lparr>projects := projects (sel s1) @ [atom]\<rparr>\<rparr>
      in case getDependenciesOf s2 atom of
           Inl err \<Rightarrow> Inl (Panic ''shouldn't be possible'')
         | Inr ds \<Rightarrow> selectLoop atom ds s2)"

text \<open>
  In \<^verbatim>\<open>unselectLast\<close>, \<^verbatim>\<open>siblings[:len(siblings)-1]\<close> panics on an empty slice, as does
  reading the last element of an empty \<^verbatim>\<open>projects\<close>.
\<close>

fun unselectLoop :: "'c ProjectDep list \<Rightarrow> ('v, 'c) solver \<Rightarrow> panic + ('v, 'c) solver" where
  "unselectLoop [] s = Inr s"
| "unselectLoop (dep # ds) s =
     (let siblings = getDependenciesOn (sel s) (pdName dep) in
      if siblings = [] then Inl (Panic ''slice bounds out of range'')
      else let siblings' = butlast siblings;
               s1 = s\<lparr>sel := (sel s)\<lparr>deps := (deps (sel s))(pdName dep \<mapsto> siblings')\<rparr>\<rparr>
           in if length siblings' = 0
              then unselectLoop ds (s1\<lparr>unsel := remove (pdName dep) (unsel s1)\<rparr>)
              else unselectLoop ds s1)"

definition unselectLast :: "('v, 'c) solver \<Rightarrow> panic + ('v, 'c) solver" where
  "unselectLast s =
     (if projects (sel s) = [] then Inl (Panic ''index out of range'')
      else let atom = last (projects (sel s));
               s1 = s\<lparr>sel := (sel s)\<lparr>projects := butlast (projects (sel s))\<rparr>\<rparr>
           in case heapPush s1 (Name atom) of
                Inl p \<Rightarrow> Inl p
              | Inr s2 \<Rightarrow>
                  (case getDependenciesOf s2 atom of
                     Inl err \<Rightarrow> Inl (Panic ''shouldn't be possible'')
                   | Inr ds \<Rightarrow> unselectLoop ds s2))"

section \<open>Searching a version queue\<close>

text \<open>
  A call of \<^verbatim>\<open>fail\<close> changes nothing but \<^verbatim>\<open>failed\<close> flags: the other fields of every
  queue and of the solver stay as they are.
\<close>


definition sameQueue :: "('v, 'c) versionQueue \<Rightarrow> ('v, 'c) versionQueue \<Rightarrow> bool" where
  "sameQueue q q' =
     (ref q' = ref q \<and> qsm q' = qsm q \<and> candidates q' = candidates q \<and> fails q' = fails q \<and>
      hasLock q' = hasLock q \<and> allLoaded q' = allLoaded q)"

definition marksOnly :: "('v, 'c) solver \<Rightarrow> ('v, 'c) solver \<Rightarrow> bool" where
  "marksOnly s s' =
     (sm s' = sm s \<and> latest s' = latest s \<and> sel s' = sel s \<and> unsel s' = unsel s \<and>
      versions s' = versions s \<and> rp s' = rp s \<and> rlm s' = rlm s \<and> attempts s' = attempts s \<and>
      nextp s' = nextp s \<and> (\<forall>a. sameQueue (mem s a) (mem s' a)))"

lemma marksOnly_refl: "marksOnly s s"
  by (simp add: marksOnly_def sameQueue_def)

lemma marksOnly_trans: "marksOnly s s1 \<Longrightarrow> marksOnly s1 s2 \<Longrightarrow> marksOnly s s2"
  by (simp add: marksOnly_def sameQueue_def)

lemma failLoop_sameQueue: "sameQueue (h a) (failLoop h as n a)"
  by (induction as) (auto simp: sameQueue_def)

lemma fail_marksOnly: "marksOnly s (fail s n)"
  by (simp add: marksOnly_def fail_def failLoop_sameQueue) (simp add: sameQueue_def)

lemma failparentLoop_marksOnly:
  "failparentLoop X pi ds s fp = (s', fp') \<Longrightarrow> marksOnly s s'"
proof (induction ds arbitrary: s fp)
  case Nil
  then show ?case by (simp add: marksOnly_refl)
next
  case (Cons d ds)
  then show ?case
    by (auto split: if_splits intro: marksOnly_trans [OF fail_marksOnly])
qed

lemma siblingLoop_marksOnly:
  "siblingLoop X dep ss s fs nfs = (s', fs', nfs') \<Longrightarrow> marksOnly s s'"
proof (induction ss arbitrary: s fs nfs)
  case Nil
  then show ?case by (simp add: marksOnly_refl)
next
  case (Cons d ds)
  then show ?case
    by (auto split: if_splits intro: marksOnly_trans [OF fail_marksOnly])
qed

lemma depsLoop_marksOnly:
  "depsLoop X pi ds s = (e, s') \<Longrightarrow> marksOnly s s'"
proof (induction ds arbitrary: s)
  case Nil
  then show ?case by (simp add: marksOnly_refl)
next
  case (Cons d ds)
  then show ?case
    by (auto simp: Let_def split: if_splits prod.splits
             intro: siblingLoop_marksOnly fail_marksOnly)
qed

lemma satisfiable_marksOnly:
  "satisfiable X s pi = Inr (e, s') \<Longrightarrow> marksOnly s s'"
  by (auto simp: satisfiable_def Let_def marksOnly_refl split: if_splits prod.splits sum.splits
           intro: failparentLoop_marksOnly depsLoop_marksOnly)

text \<open>The measure of the walk: the candidates left, counting an unloaded upstream list.\<close>

definition queueSize :: "('v, 'c) versionQueue \<Rightarrow> nat" where
  "queueSize q =
     length (candidates q) +
     (if allLoaded q then 0 else Suc (length (fst (ListVersions (qsm q) (ref q)))))"

lemma marksOnly_queueSize: "marksOnly s s' \<Longrightarrow> queueSize (mem s' a) = queueSize (mem s a)"
  by (simp add: marksOnly_def sameQueue_def queueSize_def)

lemma advance_queueSize:
  "advance q r = (q', None) \<Longrightarrow> \<not> isExhausted q' \<Longrightarrow> queueSize q' < queueSize q"
  by (cases "candidates q")
     (auto simp: advance_def isExhausted_def queueSize_def Let_def split: if_splits prod.splits option.splits)

function fvvLoop ::
  "('v, 'c) externals \<Rightarrow> ('v, 'c) solver \<Rightarrow> nat \<Rightarrow> panic + (bool \<times> ('v, 'c) solver)" where
  "fvvLoop X s q =
     (let cur = current (mem s q) in
      case satisfiable X s \<lparr>Name = ref (mem s q), Version = cur\<rparr> of
        Inl p \<Rightarrow> Inl p
      | Inr (None, s1) \<Rightarrow> Inr (True, s1)
      | Inr (Some err, s1) \<Rightarrow>
          (case advance (mem s1 q) (Some err) of
             (q', adverr) \<Rightarrow>
               let s2 = s1\<lparr>mem := (mem s1)(q := q')\<rparr> in
               if adverr \<noteq> None then Inr (False, s2)
               else if isExhausted (mem s2 q) then Inr (False, s2)
               else fvvLoop X s2 q))"
  by pat_completeness auto
termination
proof (relation "measure (\<lambda>(X, s, q). queueSize (mem s q))", goal_cases)
  case 1
  show ?case by simp
next
  case (2 X s q cur b e s1 err q' adverr s2)
  from 2(2,3) have "marksOnly s s1"
    by (auto dest: satisfiable_marksOnly)
  then have "queueSize (mem s1 q) = queueSize (mem s q)"
    by (rule marksOnly_queueSize)
  moreover have "queueSize q' < queueSize (mem s1 q)"
    using 2 by (auto intro: advance_queueSize [of "mem s1 q" "Some err"])
  ultimately show ?case using 2 by simp
qed

definition findValidVersion ::
  "('v, 'c) externals \<Rightarrow> ('v, 'c) solver \<Rightarrow> nat \<Rightarrow>
   panic + (('v, 'c) failure option \<times> ('v, 'c) solver)" where
  "findValidVersion X s q =
     (if current (mem s q) = None then Inl (Panic ''version queue is empty, should not happen'')
      else let faillen = length (fails (mem s q)) in
        case fvvLoop X s q of
          Inl p \<Rightarrow> Inl p
        | Inr (True, s1) \<Rightarrow> Inr (None, s1)
        | Inr (False, s1) \<Rightarrow>
            (case getDependenciesOn (sel s1) (ref (mem s1 q)) of
               [] \<Rightarrow> Inl (Panic ''index out of range'')
             | d # _ \<Rightarrow>
                 let s2 = fail s1 (Name (Depender d)) in
                 Inr (Some (NoVersion (ref (mem s2 q)) (drop faillen (fails (mem s2 q)))), s2)))"

text \<open>
  Lines 169 to 198 of \<^verbatim>\<open>createVersionQueue\<close>: derive the lock-biased atom, build the
  queue, and search it. The result is the pair (queue pointer or nil, error).
\<close>

definition createVersionQueueLocked ::
  "('v, 'c) externals \<Rightarrow> ('v, 'c) solver \<Rightarrow> ProjectName \<Rightarrow>
   panic + ((nat option \<times> ('v, 'c) failure option) \<times> ('v, 'c) solver)" where
  "createVersionQueueLocked X s r =
     (let lockv = getLockVersionIfValid X s r in
      case newVersionQueue X r lockv (sm s) of
        Inl err \<Rightarrow> Inr ((None, Some err), s)
      | Inr q0 \<Rightarrow>
          (case alloc s q0 of
             (q, s1) \<Rightarrow>
               (case findValidVersion X s1 q of
                  Inl p \<Rightarrow> Inl p
                | Inr (err, s2) \<Rightarrow> Inr ((Some q, err), s2))))"

definition createVersionQueue ::
  "('v, 'c) externals \<Rightarrow> ('v, 'c) solver \<Rightarrow> ProjectName \<Rightarrow>
   panic + ((nat option \<times> ('v, 'c) failure option) \<times> ('v, 'c) solver)" where
  "createVersionQueue X s r =
     (if r = Name (pa (rp s))
      then (case newVersionQueue X r (nilpa X) (sm s) of
              Inl err \<Rightarrow> Inr ((None, Some err), s)
            | Inr q0 \<Rightarrow> (case alloc s q0 of (q, s1) \<Rightarrow> Inr ((Some q, None), s1)))
      else case RepoExists (sm s) r of
             (exists, Some err) \<Rightarrow> Inr ((None, Some err), s)
           | (exists, None) \<Rightarrow>
               if \<not> exists
               then (case VendorCodeExists (sm s) r of
                       (vexists, Some err) \<Rightarrow> Inr ((None, Some err), s)
                     | (vexists, None) \<Rightarrow>
                         if vexists then createVersionQueueLocked X s r
                         else Inr ((None, Some (CannotResolve r)), s))
               else createVersionQueueLocked X s r)"

definition frontierOnly :: "('v, 'c) solver \<Rightarrow> ('v, 'c) solver \<Rightarrow> bool" where
  "frontierOnly s s' =
     (sm s' = sm s \<and> latest s' = latest s \<and> versions s' = versions s \<and> rp s' = rp s \<and>
      rlm s' = rlm s \<and> attempts s' = attempts s \<and> mem s' = mem s \<and> nextp s' = nextp s)"

lemma frontierOnly_refl: "frontierOnly s s"
  by (simp add: frontierOnly_def)

lemma frontierOnly_trans: "frontierOnly s s1 \<Longrightarrow> frontierOnly s1 s2 \<Longrightarrow> frontierOnly s s2"
  by (simp add: frontierOnly_def)

lemma up_frontierOnly: "up s j = Inr s' \<Longrightarrow> frontierOnly s s' \<and> sel s' = sel s"
proof (induction s j arbitrary: s' rule: up.induct)
  case (1 s j)
  let ?i = "parent j"
  from "1.prems" have eq:
    "(if ?i = j then Inr s
      else case unselectedComparator s j ?i of
             Inl p \<Rightarrow> Inl p
           | Inr b \<Rightarrow> if \<not> b then Inr s else up (Swap s ?i j) ?i) = Inr s'"
    unfolding up.simps [of s j] Let_def .
  show ?case
  proof (cases "?i = j")
    case True
    with eq show ?thesis by (simp add: frontierOnly_def)
  next
    case False
    show ?thesis
    proof (cases "unselectedComparator s j ?i")
      case (Inl p)
      with False eq show ?thesis by simp
    next
      case (Inr b)
      show ?thesis
      proof (cases b)
        case True
        with False Inr eq have "up (Swap s ?i j) ?i = Inr s'"
          by simp
        with "1.IH" [OF refl False Inr] True
        have "frontierOnly (Swap s ?i j) s' \<and> sel s' = sel (Swap s ?i j)"
          by simp
        then show ?thesis by (simp add: frontierOnly_def Swap_def)
      next
        case False
        with \<open>?i \<noteq> j\<close> Inr eq show ?thesis by (simp add: frontierOnly_def)
      qed
    qed
  qed
qed

lemma heapPush_frontierOnly: "heapPush s n = Inr s' \<Longrightarrow> frontierOnly s s' \<and> sel s' = sel s"
  by (auto simp: heapPush_def frontierOnly_def dest!: up_frontierOnly)

lemma selectLoop_frontierOnly: "selectLoop atom ds s = Inr s' \<Longrightarrow> frontierOnly s s'"
proof (induction ds arbitrary: s)
  case Nil
  then show ?case by (simp add: frontierOnly_def)
next
  case (Cons d ds)
  then show ?case
    by (fastforce simp: Let_def frontierOnly_def split: if_splits sum.splits dest!: heapPush_frontierOnly)
qed

lemma selectVersion_frontierOnly: "selectVersion s atom = Inr s' \<Longrightarrow> frontierOnly s s'"
  by (fastforce simp: selectVersion_def Let_def frontierOnly_def split: sum.splits
                dest!: selectLoop_frontierOnly)

lemma unselectLoop_frontierOnly: "unselectLoop ds s = Inr s' \<Longrightarrow> frontierOnly s s'"
proof (induction ds arbitrary: s)
  case Nil
  then show ?case by (simp add: frontierOnly_def)
next
  case (Cons d ds)
  then show ?case
    by (fastforce simp: Let_def frontierOnly_def split: if_splits)
qed

lemma unselectLast_frontierOnly: "unselectLast s = Inr s' \<Longrightarrow> frontierOnly s s'"
  by (fastforce simp: unselectLast_def Let_def frontierOnly_def split: sum.splits if_splits
                dest!: unselectLoop_frontierOnly heapPush_frontierOnly)

declare fvvLoop.simps [simp del]

definition queuesOnly :: "('v, 'c) solver \<Rightarrow> ('v, 'c) solver \<Rightarrow> bool" where
  "queuesOnly s s' =
     (sm s' = sm s \<and> latest s' = latest s \<and> sel s' = sel s \<and> unsel s' = unsel s \<and>
      versions s' = versions s \<and> rp s' = rp s \<and> rlm s' = rlm s \<and> attempts s' = attempts s \<and>
      nextp s' = nextp s)"

lemma marksOnly_queuesOnly: "marksOnly s s' \<Longrightarrow> queuesOnly s s'"
  by (simp add: marksOnly_def queuesOnly_def)

lemma queuesOnly_trans: "queuesOnly s s1 \<Longrightarrow> queuesOnly s1 s2 \<Longrightarrow> queuesOnly s s2"
  by (simp add: queuesOnly_def)

lemma fvvLoop_queuesOnly: "fvvLoop X s q = Inr (b, s') \<Longrightarrow> queuesOnly s s'"
proof (induction X s q arbitrary: b s' rule: fvvLoop.induct)
  case (1 X s q)
  let ?atom = "\<lparr>Name = ref (mem s q), Version = current (mem s q)\<rparr>"
  show ?case
  proof (cases "satisfiable X s ?atom")
    case (Inl p)
    with "1.prems" show ?thesis by (simp add: fvvLoop.simps [of X s q])
  next
    case (Inr r)
    obtain e s1 where r: "r = (e, s1)" by (cases r)
    from Inr r have m: "queuesOnly s s1"
      by (auto dest!: satisfiable_marksOnly marksOnly_queuesOnly)
    show ?thesis
    proof (cases e)
      case None
      with Inr r "1.prems" m show ?thesis by (simp add: fvvLoop.simps [of X s q])
    next
      case (Some err)
      obtain q' adverr where adv: "advance (mem s1 q) (Some err) = (q', adverr)"
        by (cases "advance (mem s1 q) (Some err)")
      let ?s2 = "s1\<lparr>mem := (mem s1)(q := q')\<rparr>"
      have m2: "queuesOnly s ?s2" using m by (simp add: queuesOnly_def)
      show ?thesis
      proof (cases "adverr \<noteq> None \<or> isExhausted (mem ?s2 q)")
        case True
        with Inr r Some adv "1.prems" m2 show ?thesis
          by (auto simp: fvvLoop.simps [of X s q] Let_def split: if_splits)
      next
        case False
        with Inr r Some adv "1.prems" have "fvvLoop X ?s2 q = Inr (b, s')"
          by (auto simp: fvvLoop.simps [of X s q] Let_def split: if_splits)
        with "1.IH" [OF refl Inr r [symmetric] Some adv [symmetric] refl] False
        have "queuesOnly ?s2 s'" by auto
        with m2 show ?thesis by (rule queuesOnly_trans)
      qed
    qed
  qed
qed

lemma findValidVersion_queuesOnly: "findValidVersion X s q = Inr (e, s') \<Longrightarrow> queuesOnly s s'"
  by (auto simp: findValidVersion_def Let_def split: if_splits sum.splits bool.splits list.splits
           dest!: fvvLoop_queuesOnly
           intro: queuesOnly_trans [OF _ marksOnly_queuesOnly [OF fail_marksOnly]])

text \<open>
  The inner loop of \<^verbatim>\<open>backtrack\<close>: pop the queues that are not marked, retracting one
  atom per pop. \<open>False\<close>: the stack ran empty (\<^verbatim>\<open>return false\<close>); \<open>True\<close>: the top is marked.
\<close>

function backtrackPop :: "('v, 'c) solver \<Rightarrow> panic + (bool \<times> ('v, 'c) solver)" where
  "backtrackPop s =
     (if length (versions s) = 0 then Inr (False, s)
      else if failed (mem s (last (versions s))) then Inr (True, s)
      else case unselectLast (s\<lparr>versions := butlast (versions s)\<rparr>) of
             Inl p \<Rightarrow> Inl p
           | Inr s1 \<Rightarrow> backtrackPop s1)"
  by pat_completeness auto
termination
proof (relation "measure (\<lambda>s. length (versions s))", goal_cases)
  case 1
  show ?case by simp
next
  case (2 s s1)
  then have "frontierOnly (s\<lparr>versions := butlast (versions s)\<rparr>) s1"
    by (auto dest: unselectLast_frontierOnly)
  with 2 show ?case by (simp add: frontierOnly_def)
qed

declare backtrackPop.simps [simp del]

lemma backtrackPop_versions:
  "backtrackPop s = Inr (b, s') \<Longrightarrow>
     length (versions s') \<le> length (versions s) \<and> (b \<longrightarrow> versions s' \<noteq> [])"
proof (induction s arbitrary: b s' rule: backtrackPop.induct)
  case (1 s)
  show ?case
  proof (cases "length (versions s) = 0 \<or> failed (mem s (last (versions s)))")
    case True
    with "1.prems" show ?thesis
      by (auto simp: backtrackPop.simps [of s] split: if_splits)
  next
    case False
    let ?s0 = "s\<lparr>versions := butlast (versions s)\<rparr>"
    from False "1.prems" obtain s1 where u: "unselectLast ?s0 = Inr s1" and r: "backtrackPop s1 = Inr (b, s')"
      by (auto simp: backtrackPop.simps [of s] split: if_splits sum.splits)
    from u have "versions s1 = butlast (versions s)"
      by (auto dest!: unselectLast_frontierOnly simp: frontierOnly_def)
    with "1.IH" [OF _ _ u r] False show ?thesis by auto
  qed
qed

text \<open>
  The outer loop of \<^verbatim>\<open>backtrack\<close>. After the pops, \<open>q\<close> is the marked top of the stack:
  its atom is retracted, the queue advanced and searched again. A version found is
  committed and the loop left; otherwise the queue is popped and the loop goes on.
  The result is the state at the \<^verbatim>\<open>break\<close> (\<open>True\<close>) or at a \<^verbatim>\<open>return false\<close> inside.
\<close>

function backtrackLoop ::
  "('v, 'c) externals \<Rightarrow> ('v, 'c) solver \<Rightarrow> panic + (bool \<times> ('v, 'c) solver)" where
  "backtrackLoop X s =
     (case backtrackPop s of
        Inl p \<Rightarrow> Inl p
      | Inr (False, s1) \<Rightarrow> Inr (False, s1)
      | Inr (True, s1) \<Rightarrow>
          let q = last (versions s1) in
          (case unselectLast s1 of
             Inl p \<Rightarrow> Inl p
           | Inr s2 \<Rightarrow>
               (case advance (mem s2 q) None of
                  (q', adverr) \<Rightarrow>
                    let s3 = s2\<lparr>mem := (mem s2)(q := q')\<rparr> in
                    if adverr = None \<and> \<not> isExhausted (mem s3 q)
                    then (case findValidVersion X s3 q of
                            Inl p \<Rightarrow> Inl p
                          | Inr (None, s4) \<Rightarrow>
                              (case selectVersion s4 \<lparr>Name = ref (mem s4 q), Version = current (mem s4 q)\<rparr> of
                                 Inl p \<Rightarrow> Inl p
                               | Inr s5 \<Rightarrow> Inr (True, s5))
                          | Inr (Some err, s4) \<Rightarrow>
                              backtrackLoop X (s4\<lparr>versions := butlast (versions s4)\<rparr>))
                    else backtrackLoop X (s3\<lparr>versions := butlast (versions s3)\<rparr>))))"
  by pat_completeness auto
termination
proof (relation "measure (\<lambda>(X, s). length (versions s))", goal_cases)
  case 1
  show ?case by simp
next
  case (2 X s r b s1 q s2 q' adverr s3 r4 e s4 err)
  from 2 have p: "backtrackPop s = Inr (True, s1)" by simp
  from backtrackPop_versions [OF p]
  have "length (versions s1) \<le> length (versions s)" "versions s1 \<noteq> []" by auto
  moreover from 2 have "versions s2 = versions s1"
    by (auto dest!: unselectLast_frontierOnly simp: frontierOnly_def)
  moreover from 2 have "versions s4 = versions s3"
    by (auto dest!: findValidVersion_queuesOnly simp: queuesOnly_def)
  moreover from 2 have "versions s3 = versions s2" by simp
  ultimately show ?case by (cases "versions s1") auto
next
  case (3 X s r b s1 q s2 q' adverr s3)
  from 3 have p: "backtrackPop s = Inr (True, s1)" by simp
  from backtrackPop_versions [OF p]
  have "length (versions s1) \<le> length (versions s)" "versions s1 \<noteq> []" by auto
  moreover from 3 have "versions s2 = versions s1"
    by (auto dest!: unselectLast_frontierOnly simp: frontierOnly_def)
  moreover from 3 have "versions s3 = versions s2" by simp
  ultimately show ?case by (cases "versions s1") auto
qed

declare backtrackLoop.simps [simp del]

definition backtrack ::
  "('v, 'c) externals \<Rightarrow> ('v, 'c) solver \<Rightarrow> panic + (bool \<times> ('v, 'c) solver)" where
  "backtrack X s =
     (if length (versions s) = 0 then Inr (False, s)
      else case backtrackLoop X s of
             Inl p \<Rightarrow> Inl p
           | Inr (False, s1) \<Rightarrow> Inr (False, s1)
           | Inr (True, s1) \<Rightarrow>
               if length (versions s1) = 0 then Inr (False, s1)
               else Inr (True, s1\<lparr>attempts := attempts s1 + 1\<rparr>))"

text \<open>
  One iteration of the loop of \<^verbatim>\<open>solve\<close>: it either goes on with a new state or returns
  the projects and the error (with the state it leaves behind).
\<close>

datatype ('v, 'c) step =
    Continue "('v, 'c) solver"
  | Return "'v ProjectAtom list" "('v, 'c) failure option" "('v, 'c) solver"

definition solveStep :: "('v, 'c) externals \<Rightarrow> ('v, 'c) solver \<Rightarrow> panic + ('v, 'c) step" where
  "solveStep X s =
     (case nextUnselected s of
        (r, False) \<Rightarrow> Inr (Return (projects (sel s)) None s)
      | (r, True) \<Rightarrow>
          (case createVersionQueue X s r of
             Inl p \<Rightarrow> Inl p
           | Inr ((queue, Some err), s1) \<Rightarrow>
               (case backtrack X s1 of
                  Inl p \<Rightarrow> Inl p
                | Inr (True, s2) \<Rightarrow> Inr (Continue s2)
                | Inr (False, s2) \<Rightarrow> Inr (Return [] (Some err) s2))
           | Inr ((None, None), s1) \<Rightarrow> Inl (Panic ''nil pointer dereference'')
           | Inr ((Some q, None), s1) \<Rightarrow>
               if current (mem s1 q) = None
               then Inl (Panic ''canary - queue is empty, but flow indicates success'')
               else (case selectVersion s1 \<lparr>Name = ref (mem s1 q), Version = current (mem s1 q)\<rparr> of
                       Inl p \<Rightarrow> Inl p
                     | Inr s2 \<Rightarrow> Inr (Continue (s2\<lparr>versions := versions s2 @ [q]\<rparr>)))))"

text \<open>
  The loop of \<^verbatim>\<open>solve\<close>, with fuel: \<open>None\<close> is a loop that has not returned within the
  given number of iterations.
\<close>

fun solve ::
  "('v, 'c) externals \<Rightarrow> nat \<Rightarrow> ('v, 'c) solver \<Rightarrow>
   (panic + (('v ProjectAtom list \<times> ('v, 'c) failure option) \<times> ('v, 'c) solver)) option" where
  "solve X 0 s = None"
| "solve X (Suc n) s =
     (case solveStep X s of
        Inl p \<Rightarrow> Some (Inl p)
      | Inr (Return projs err s1) \<Rightarrow> Some (Inr ((projs, err), s1))
      | Inr (Continue s1) \<Rightarrow> solve X n s1)"

text \<open>
  \<^verbatim>\<open>Solve\<close>, lines 52 to 72: store the root, enter the lock's projects into \<open>rlm\<close> and the
  names to upgrade into \<open>latest\<close>, and make a new selection and a new frontier.
\<close>

definition SolveInit ::
  "('v, 'c) solver \<Rightarrow> ('v, 'c) ProjectInfo \<Rightarrow> ProjectName list \<Rightarrow> ('v, 'c) solver" where
  "SolveInit s root toUpgrade =
     (let s1 = s\<lparr>rp := root\<rparr>;
          s2 = (case Lock root of
                  None \<Rightarrow> s1
                | Some lps \<Rightarrow> s1\<lparr>rlm := foldl (\<lambda>m lp. m(lpName lp \<mapsto> lp)) (rlm s1) lps\<rparr>);
          s3 = s2\<lparr>latest := foldl (\<lambda>l v. insert v l) (latest s2) toUpgrade\<rparr>
      in s3\<lparr>sel := \<lparr>projects = [], deps = Map.empty\<rparr>, unsel := []\<rparr>)"

definition Solve ::
  "('v, 'c) externals \<Rightarrow> nat \<Rightarrow> ('v, 'c) solver \<Rightarrow> ('v, 'c) ProjectInfo \<Rightarrow> ProjectName list \<Rightarrow>
   (panic + (('v, 'c) Result \<times> ('v, 'c) solver)) option" where
  "Solve X n s root toUpgrade =
     (let s1 = SolveInit s root toUpgrade in
      case selectVersion s1 (pa (rp s1)) of
        Inl p \<Rightarrow> Some (Inl p)
      | Inr s2 \<Rightarrow>
          (case solve X n s2 of
             None \<Rightarrow> None
           | Some (Inl p) \<Rightarrow> Some (Inl p)
           | Some (Inr ((projs, err), s3)) \<Rightarrow>
               Some (Inr (\<lparr>Projects = projs, SolveFailure = err\<rparr>, s3))))"

text \<open>
  \<^verbatim>\<open>NewSolver\<close>: the two maps are made empty and every other field has its zero value.
  The nil \<^verbatim>\<open>sel\<close> and \<^verbatim>\<open>unsel\<close> pointers are shown as an empty selection and an empty
  frontier; \<^verbatim>\<open>Solve\<close> replaces both before anything reads them.
\<close>

definition zeroQueue :: "('v, 'c) SourceManager \<Rightarrow> ('v, 'c) versionQueue" where
  "zeroQueue m =
     \<lparr>ref = [], qsm = m, candidates = [], fails = [], failed = False, hasLock = False,
      allLoaded = False\<rparr>"

definition NewSolver :: "('v, 'c) SourceManager \<Rightarrow> ('v, 'c) solver" where
  "NewSolver m =
     \<lparr>sm = m, latest = {}, sel = \<lparr>projects = [], deps = Map.empty\<rparr>, unsel = [], versions = [],
      rp = \<lparr>pa = emptyProjectAtom, Dependencies = [], DevDependencies = [], Lock = None\<rparr>,
      rlm = Map.empty, attempts = 0, mem = (\<lambda>a. zeroQueue m), nextp = 0\<rparr>"

section \<open>A concrete instance\<close>

text \<open>
  Versions are numbers and a constraint is a half-open range: a lower bound and an
  optional upper bound.
\<close>

type_synonym range = "nat \<times> nat option"

definition rangeMatches :: "range \<Rightarrow> nat Version \<Rightarrow> bool" where
  "rangeMatches c v =
     (case v of
        None \<Rightarrow> False
      | Some n \<Rightarrow> fst c \<le> n \<and> (case snd c of None \<Rightarrow> True | Some h \<Rightarrow> n < h))"

definition rangeIntersect :: "range \<Rightarrow> range \<Rightarrow> range" where
  "rangeIntersect c d =
     (max (fst c) (fst d),
      case snd c of
        None \<Rightarrow> snd d
      | Some h \<Rightarrow> (case snd d of None \<Rightarrow> Some h | Some k \<Rightarrow> Some (min h k)))"

definition rangeMatchesAny :: "range \<Rightarrow> range \<Rightarrow> bool" where
  "rangeMatchesAny c d =
     (case snd (rangeIntersect c d) of
        None \<Rightarrow> True
      | Some h \<Rightarrow> fst (rangeIntersect c d) < h)"

definition ranges :: "(nat, range) externals" where
  "ranges =
     \<lparr>Matches = rangeMatches, MatchesAny = rangeMatchesAny, Intersect = rangeIntersect,
      anyConstraint = (0, None), nilRevision = 0\<rparr>"

definition exAtom :: "ProjectName \<Rightarrow> nat \<Rightarrow> nat ProjectAtom" where
  "exAtom n v = \<lparr>Name = n, Version = Some v\<rparr>"

definition exDep :: "ProjectName \<Rightarrow> range \<Rightarrow> range ProjectDep" where
  "exDep n c = \<lparr>pdName = n, Constraint = c\<rparr>"

definition exInfo :: "nat ProjectAtom \<Rightarrow> range ProjectDep list \<Rightarrow> (nat, range) ProjectInfo" where
  "exInfo a ds = \<lparr>pa = a, Dependencies = ds, DevDependencies = [], Lock = None\<rparr>"

text \<open>
  A source manager given by a table: the versions of each project (in the manager's
  order) with the dependencies each version declares. Every project of the table exists
  upstream; an atom that is not in the table has no project info.
\<close>

type_synonym table = "(ProjectName \<times> (nat \<times> range ProjectDep list) list) list"

definition tableManager :: "table \<Rightarrow> (nat, range) SourceManager" where
  "tableManager t =
     \<lparr>RepoExists = (\<lambda>n. (map_of t n \<noteq> None, None)),
      VendorCodeExists = (\<lambda>n. (False, None)),
      ListVersions = (\<lambda>n. (case map_of t n of None \<Rightarrow> [] | Some vs \<Rightarrow> map (\<lambda>e. Some (fst e)) vs, None)),
      GetProjectInfo =
        (\<lambda>a. case map_of t (Name a) of
                None \<Rightarrow> (exInfo a [], Some (SourceError ''no such project''))
              | Some vs \<Rightarrow>
                  (case Version a of
                     None \<Rightarrow> (exInfo a [], Some (SourceError ''no such version''))
                   | Some v \<Rightarrow>
                       (case map_of vs v of
                          None \<Rightarrow> (exInfo a [], Some (SourceError ''no such version''))
                        | Some ds \<Rightarrow> (exInfo a ds, None))))\<rparr>"

text \<open>Scenario 7: A is to be upgraded, the lock has A at 1, upstream lists 3, 2, 1.\<close>

definition upgradeTable :: table where
  "upgradeTable = [(''R'', [(1, [exDep ''A'' (0, None)])]), (''A'', [(3, []), (2, []), (1, [])])]"

definition upgradeRoot :: "(nat, range) ProjectInfo" where
  "upgradeRoot =
     \<lparr>pa = exAtom ''R'' 1, Dependencies = [exDep ''A'' (0, None)], DevDependencies = [],
      Lock = Some [\<lparr>lpName = ''A'', lpVersion = Some 1\<rparr>]\<rparr>"

definition upgradeSeeded :: "(nat, range) solver" where
  "upgradeSeeded =
     (case selectVersion (SolveInit (NewSolver (tableManager upgradeTable)) upgradeRoot [''A'']) (pa upgradeRoot) of
        Inr s \<Rightarrow> s
      | Inl p \<Rightarrow> NewSolver (tableManager upgradeTable))"

section \<open>Lock reconciliation: the upgrade override\<close>

text \<open>
  C1. The claim: for a name marked to upgrade that exists upstream, \<^verbatim>\<open>getLockVersionIfValid\<close>
  returns the nil-placeholder, so that in scenario 7 the lock is ignored and the solve
  selects A at 3. The code tests \<^verbatim>\<open>!exist\<close>: in scenario 7, where A is marked, exists
  upstream and is locked at 1, it returns the locked atom (A, 1), and the solve selects A at 1.
\<close>

theorem getLockVersionIfValid_upgrade_existing:
  "''A'' \<in> latest upgradeSeeded \<and>
   fst (RepoExists (sm upgradeSeeded) ''A'') \<and>
   getLockVersionIfValid ranges upgradeSeeded ''A'' = exAtom ''A'' 1 \<and>
   getLockVersionIfValid ranges upgradeSeeded ''A'' \<noteq> nilpa ranges \<and>
   map_option (map_sum id (\<lambda>r. Projects (fst r)))
     (Solve ranges 5 (NewSolver (tableManager upgradeTable)) upgradeRoot [''A''])
     = Some (Inr [exAtom ''R'' 1, exAtom ''A'' 1])"
  by code_simp

section \<open>fail\<close>

lemma failLoop_none:
  "\<forall>a \<in> set as. ref (h a) \<noteq> name \<Longrightarrow> failLoop h as name = h"
  by (induction as) auto

lemma failLoop_first:
  "\<forall>b \<in> set older. ref (h b) \<noteq> name \<Longrightarrow> ref (h a) = name \<Longrightarrow>
   failLoop h (older @ a # younger) name = h(a := (h a)\<lparr>failed := True\<rparr>)"
  by (induction older) auto

text \<open>
  C8. \<^verbatim>\<open>fail(name)\<close> changes nothing when \<open>name\<close> is the root or no queue on the stack has
  that name. Otherwise it sets the \<^verbatim>\<open>failed\<close> flag of the oldest queue on the stack whose
  \<^verbatim>\<open>ref\<close> is \<open>name\<close>; every other queue object, the younger ones with the same name
  among them, and every other field of the solver stay as they were.
\<close>

theorem fail_marks_oldest:
  "(name = Name (pa (rp s)) \<longrightarrow> fail s name = s) \<and>
   ((\<forall>a \<in> set (versions s). ref (mem s a) \<noteq> name) \<longrightarrow> fail s name = s) \<and>
   (name \<noteq> Name (pa (rp s)) \<and> versions s = older @ q # younger \<and>
    (\<forall>b \<in> set older. ref (mem s b) \<noteq> name) \<and> ref (mem s q) = name \<longrightarrow>
      fail s name = s\<lparr>mem := (mem s)(q := (mem s q)\<lparr>failed := True\<rparr>)\<rparr> \<and>
      failed (mem (fail s name) q) \<and>
      (\<forall>b. b \<noteq> q \<longrightarrow> mem (fail s name) b = mem s b))"
  by (auto simp: fail_def failLoop_none failLoop_first)

definition failState :: "(nat, range) solver" where
  "failState =
     (NewSolver (tableManager upgradeTable))
       \<lparr>versions := [0, 1, 2],
        mem := (\<lambda>a. (zeroQueue (tableManager upgradeTable))\<lparr>ref := (if a = 0 then ''B'' else ''A'')\<rparr>)\<rparr>"

theorem fail_marks_oldest_witness:
  "failed (mem (fail failState ''A'') 1) \<and>
   mem (fail failState ''A'') 2 = mem failState 2 \<and>
   \<not> failed (mem failState 2) \<and> ref (mem failState 2) = ''A''"
proof -
  have h: "''A'' \<noteq> Name (pa (rp failState)) \<and> versions failState = [0] @ 1 # [2] \<and>
           (\<forall>b \<in> set [0]. ref (mem failState b) \<noteq> ''A'') \<and> ref (mem failState 1) = ''A''"
    by (simp add: failState_def NewSolver_def zeroQueue_def emptyProjectAtom_def)
  have "\<not> failed (mem failState 2) \<and> ref (mem failState 2) = ''A''"
    by (simp add: failState_def NewSolver_def zeroQueue_def)
  with fail_marks_oldest [of "''A''" failState "[0]" 1 "[2]"] h show ?thesis
    by simp
qed

section \<open>Solve keeps what earlier calls left\<close>

lemma rlm_fold_other:
  "n \<notin> lpName ` set lps \<Longrightarrow> foldl (\<lambda>m lp. m(lpName lp \<mapsto> lp)) m0 lps n = m0 n"
  by (induction lps arbitrary: m0) auto

lemma rlm_fold_keeps:
  "m0 n = Some x \<Longrightarrow> \<exists>y. foldl (\<lambda>m lp. m(lpName lp \<mapsto> lp)) m0 lps n = Some y"
proof (induction lps arbitrary: m0 x)
  case Nil
  then show ?case by simp
next
  case (Cons lp lps)
  from Cons.prems obtain z where "(m0(lpName lp \<mapsto> lp)) n = Some z"
    by (cases "n = lpName lp") auto
  from Cons.IH [of "m0(lpName lp \<mapsto> lp)" z] this show ?case by simp
qed

lemma rlm_fold_dom:
  "dom m0 \<subseteq> dom (foldl (\<lambda>m lp. m(lpName lp \<mapsto> lp)) m0 lps)"
  using rlm_fold_keeps [of m0 _ _ lps] by (auto simp: dom_def)

lemma latest_fold: "foldl (\<lambda>l v. insert v l) l0 vs = l0 \<union> set vs"
  by (induction vs arbitrary: l0) auto

definition lockNames :: "('v, 'c) ProjectInfo \<Rightarrow> ProjectName set" where
  "lockNames root = (case Lock root of None \<Rightarrow> {} | Some lps \<Rightarrow> lpName ` set lps)"

text \<open>
  C10. At its entry \<^verbatim>\<open>Solve\<close> makes a new selection and a new frontier and nothing else
  anew: the queue stack and the attempts counter are as the caller left them, the names to
  upgrade are added to \<open>latest\<close>, and the lock's projects are entered into \<open>rlm\<close>, which
  keeps every key it had. The same holds of the state after the root is seeded. A solver
  made by \<^verbatim>\<open>NewSolver\<close> has all four empty.
\<close>

theorem Solve_keeps_accumulated_state:
  "sel (SolveInit s root upg) = \<lparr>projects = [], deps = Map.empty\<rparr> \<and>
   unsel (SolveInit s root upg) = [] \<and>
   versions (SolveInit s root upg) = versions s \<and>
   attempts (SolveInit s root upg) = attempts s \<and>
   mem (SolveInit s root upg) = mem s \<and>
   latest (SolveInit s root upg) = latest s \<union> set upg \<and>
   dom (rlm s) \<subseteq> dom (rlm (SolveInit s root upg)) \<and>
   (\<forall>n. n \<notin> lockNames root \<longrightarrow> rlm (SolveInit s root upg) n = rlm s n) \<and>
   (\<forall>s'. selectVersion (SolveInit s root upg) (pa (rp (SolveInit s root upg))) = Inr s' \<longrightarrow>
      versions s' = versions s \<and> attempts s' = attempts s \<and> mem s' = mem s \<and>
      latest s' = latest s \<union> set upg \<and> rlm s' = rlm (SolveInit s root upg)) \<and>
   versions (NewSolver m) = [] \<and> attempts (NewSolver m) = 0 \<and>
   latest (NewSolver m) = {} \<and> rlm (NewSolver m) = Map.empty"
proof -
  have a: "sel (SolveInit s root upg) = \<lparr>projects = [], deps = Map.empty\<rparr>"
          "unsel (SolveInit s root upg) = []"
          "versions (SolveInit s root upg) = versions s"
          "attempts (SolveInit s root upg) = attempts s"
          "mem (SolveInit s root upg) = mem s"
          "latest (SolveInit s root upg) = latest s \<union> set upg"
    by (simp_all add: SolveInit_def Let_def latest_fold split: option.splits)
  have b: "dom (rlm s) \<subseteq> dom (rlm (SolveInit s root upg))"
    by (simp add: SolveInit_def Let_def rlm_fold_dom split: option.splits)
  have c: "\<forall>n. n \<notin> lockNames root \<longrightarrow> rlm (SolveInit s root upg) n = rlm s n"
    by (simp add: SolveInit_def Let_def lockNames_def rlm_fold_other split: option.splits)
  have d: "\<forall>s'. selectVersion (SolveInit s root upg) (pa (rp (SolveInit s root upg))) = Inr s' \<longrightarrow>
      versions s' = versions s \<and> attempts s' = attempts s \<and> mem s' = mem s \<and>
      latest s' = latest s \<union> set upg \<and> rlm s' = rlm (SolveInit s root upg)"
  proof (intro allI impI)
    fix s'
    assume "selectVersion (SolveInit s root upg) (pa (rp (SolveInit s root upg))) = Inr s'"
    then have "frontierOnly (SolveInit s root upg) s'"
      by (rule selectVersion_frontierOnly)
    then show "versions s' = versions s \<and> attempts s' = attempts s \<and> mem s' = mem s \<and>
      latest s' = latest s \<union> set upg \<and> rlm s' = rlm (SolveInit s root upg)"
      by (simp add: frontierOnly_def a)
  qed
  have e: "versions (NewSolver m) = []" "attempts (NewSolver m) = 0"
          "latest (NewSolver m) = {}" "rlm (NewSolver m) = Map.empty"
    by (simp_all add: NewSolver_def)
  show ?thesis by (intro conjI) (rule a b c d e)+
qed

text \<open>
  A run that backtracks: R depends on A; A at 2 needs B from 2 on, A at 1 needs nothing;
  B exists at 1 only. The first solve commits A at 2, fails on B, backtracks and ends
  with A at 1. The same solver value is then used for a second solve.
\<close>

definition backtrackTable :: table where
  "backtrackTable =
     [(''R'', [(1, [exDep ''A'' (0, None)])]),
      (''A'', [(2, [exDep ''B'' (2, None)]), (1, [])]),
      (''B'', [(1, [])])]"

definition backtrackRoot :: "(nat, range) ProjectInfo" where
  "backtrackRoot = exInfo (exAtom ''R'' 1) [exDep ''A'' (0, None)]"

definition firstRun :: "(panic + ((nat, range) Result \<times> (nat, range) solver)) option" where
  "firstRun = Solve ranges 10 (NewSolver (tableManager backtrackTable)) backtrackRoot []"

definition afterFirstRun :: "(nat, range) solver" where
  "afterFirstRun =
     (case firstRun of
        Some (Inr (r, s)) \<Rightarrow> s
      | _ \<Rightarrow> NewSolver (tableManager backtrackTable))"

definition secondSeeded :: "(nat, range) solver" where
  "secondSeeded =
     (case selectVersion (SolveInit afterFirstRun backtrackRoot []) (pa backtrackRoot) of
        Inl p \<Rightarrow> afterFirstRun
      | Inr s \<Rightarrow> s)"

lemma secondSeeded_eq:
  "selectVersion (SolveInit afterFirstRun backtrackRoot []) (pa (rp (SolveInit afterFirstRun backtrackRoot [])))
     = Inr secondSeeded"
proof -
  have r: "pa (rp (SolveInit afterFirstRun backtrackRoot [])) = pa backtrackRoot"
    by (simp add: SolveInit_def Let_def split: option.splits)
  have "case selectVersion (SolveInit afterFirstRun backtrackRoot []) (pa backtrackRoot) of
          Inl p \<Rightarrow> False | Inr s \<Rightarrow> True"
    by code_simp
  then show ?thesis
    unfolding r secondSeeded_def
    by (cases "selectVersion (SolveInit afterFirstRun backtrackRoot []) (pa backtrackRoot)") auto
qed

theorem Solve_keeps_accumulated_state_witness:
  "versions afterFirstRun = [0] \<and> attempts afterFirstRun = 1 \<and>
   versions (SolveInit afterFirstRun backtrackRoot []) = [0] \<and>
   attempts (SolveInit afterFirstRun backtrackRoot []) = 1 \<and>
   versions secondSeeded = [0] \<and> attempts secondSeeded = 1"
proof -
  have v: "versions afterFirstRun = [0]" "attempts afterFirstRun = 1"
    by code_simp+
  from Solve_keeps_accumulated_state [of afterFirstRun backtrackRoot "[]" "tableManager backtrackTable"]
       secondSeeded_eq v
  show ?thesis by simp
qed

section \<open>The satisfiability check\<close>

text \<open>
  The check of section 4.5.5 as the specification words it. A declared dependency is
  admissible when the compound constraint already on its name has a non-empty
  intersection with its constraint and, if its name is selected, its constraint matches
  the selected version.
\<close>

definition depAdmissible :: "('v, 'c) externals \<Rightarrow> ('v, 'c) solver \<Rightarrow> 'c ProjectDep \<Rightarrow> bool" where
  "depAdmissible X s d =
     (MatchesAny X (getConstraint X (sel s) (pdName d)) (Constraint d) \<and>
      (snd (selected (sel s) (pdName d)) \<longrightarrow>
         Matches X (Constraint d) (Version (fst (selected (sel s) (pdName d))))))"

definition dependerNames :: "('v, 'c) Dependency list \<Rightarrow> ProjectName list" where
  "dependerNames es = map (\<lambda>e. Name (Depender e)) es"

text \<open>What is returned for the first dependency that is not admissible.\<close>

definition depFailure ::
  "('v, 'c) externals \<Rightarrow> ('v, 'c) solver \<Rightarrow> 'v ProjectAtom \<Rightarrow> 'c ProjectDep \<Rightarrow>
   ('v, 'c) failure option \<times> ('v, 'c) solver" where
  "depFailure X s a d =
     (let C' = getConstraint X (sel s) (pdName d);
          siblings = getDependenciesOn (sel s) (pdName d)
      in if \<not> MatchesAny X C' (Constraint d)
         then let failsib = filter (\<lambda>e. \<not> MatchesAny X (Constraint (Dep e)) (Constraint d)) siblings;
                  nofailsib = filter (\<lambda>e. MatchesAny X (Constraint (Dep e)) (Constraint d)) siblings
              in (Some (DisjointConstraint \<lparr>Depender = a, Dep = d\<rparr> failsib nofailsib C'),
                  foldl fail s (dependerNames failsib))
         else (Some (ConstraintNotAllowed \<lparr>Depender = a, Dep = d\<rparr>
                       (Version (fst (selected (sel s) (pdName d))))),
               fail s (pdName d)))"

definition satisfiableSpec ::
  "('v, 'c) externals \<Rightarrow> ('v, 'c) solver \<Rightarrow> 'v ProjectAtom \<Rightarrow> ('v, 'c) failure option \<times> ('v, 'c) solver" where
  "satisfiableSpec X s a =
     (let C = getConstraint X (sel s) (Name a) in
      if \<not> Matches X C (Version a)
      then let failparent = filter (\<lambda>e. \<not> Matches X (Constraint (Dep e)) (Version a))
                                   (getDependenciesOn (sel s) (Name a))
           in (Some (VersionNotAllowed a failparent C), foldl fail s (dependerNames failparent))
      else case getDependenciesOf s a of
             Inl err \<Rightarrow> (Some err, s)
           | Inr ds \<Rightarrow>
               (case find (\<lambda>d. \<not> depAdmissible X s d) ds of
                  None \<Rightarrow> (None, s)
                | Some d \<Rightarrow> depFailure X s a d))"

lemma failparentLoop_eq:
  "failparentLoop X a es s fp =
     (foldl fail s (dependerNames (filter (\<lambda>e. \<not> Matches X (Constraint (Dep e)) (Version a)) es)),
      fp @ filter (\<lambda>e. \<not> Matches X (Constraint (Dep e)) (Version a)) es)"
  by (induction es arbitrary: s fp) (auto simp: dependerNames_def)

lemma siblingLoop_eq:
  "siblingLoop X d es s fs nfs =
     (foldl fail s (dependerNames (filter (\<lambda>e. \<not> MatchesAny X (Constraint (Dep e)) (Constraint d)) es)),
      fs @ filter (\<lambda>e. \<not> MatchesAny X (Constraint (Dep e)) (Constraint d)) es,
      nfs @ filter (\<lambda>e. MatchesAny X (Constraint (Dep e)) (Constraint d)) es)"
  by (induction es arbitrary: s fs nfs) (auto simp: dependerNames_def)

lemma depsLoop_Cons_ok:
  "depAdmissible X s d \<Longrightarrow> depsLoop X a (d # ds) s = depsLoop X a ds s"
  by (cases "selected (sel s) (pdName d)") (auto simp: depAdmissible_def Let_def)

lemma depsLoop_Cons_bad:
  "\<not> depAdmissible X s d \<Longrightarrow> depsLoop X a (d # ds) s = depFailure X s a d"
  by (cases "selected (sel s) (pdName d)")
     (auto simp: depAdmissible_def depFailure_def Let_def siblingLoop_eq)

lemma depsLoop_eq:
  "depsLoop X a ds s =
     (case find (\<lambda>d. \<not> depAdmissible X s d) ds of
        None \<Rightarrow> (None, s)
      | Some d \<Rightarrow> depFailure X s a d)"
proof (induction ds)
  case Nil
  show ?case by simp
next
  case (Cons d ds)
  show ?case
  proof (cases "depAdmissible X s d")
    case True
    with Cons.IH show ?thesis
      by (simp add: depsLoop_Cons_ok del: depsLoop.simps)
  next
    case False
    then show ?thesis
      by (simp add: depsLoop_Cons_bad del: depsLoop.simps)
  qed
qed

text \<open>
  C2, amended. For a non-empty atom, \<^verbatim>\<open>satisfiable\<close> does what section 4.5.5 says, with one
  more outcome: when the atom passes phase 1 and the source manager fails to give its
  project info, that error is returned and no queue is marked. So it returns success
  exactly when the compound constraint on the atom's name matches its version, its
  declared dependencies can be fetched, and each of them is admissible. Otherwise it
  returns, in this order of checks: VersionNotAllowed with the inbound edges that reject
  the version (their dependers marked), the source manager's error, DisjointConstraint
  for the first inadmissible dependency with its siblings split into the disjoint ones
  (their dependers marked) and the others, or ConstraintNotAllowed with the selected
  version (the dependency's name marked).
\<close>

theorem satisfiable_refines_spec:
  assumes "a \<noteq> emptyProjectAtom"
  shows "satisfiable X s a = Inr (satisfiableSpec X s a) \<and>
         ((\<exists>s'. satisfiable X s a = Inr (None, s')) =
            (Matches X (getConstraint X (sel s) (Name a)) (Version a) \<and>
             (\<exists>ds. getDependenciesOf s a = Inr ds \<and> (\<forall>d \<in> set ds. depAdmissible X s d))))"
proof (rule conjI)
  show eq: "satisfiable X s a = Inr (satisfiableSpec X s a)"
    using assms
    by (auto simp: satisfiable_def satisfiableSpec_def Let_def failparentLoop_eq depsLoop_eq
             split: sum.splits)
  have fst_failure: "fst (depFailure X s a d) \<noteq> None" for d
    by (simp add: depFailure_def Let_def)
  show "(\<exists>s'. satisfiable X s a = Inr (None, s')) =
           (Matches X (getConstraint X (sel s) (Name a)) (Version a) \<and>
            (\<exists>ds. getDependenciesOf s a = Inr ds \<and> (\<forall>d \<in> set ds. depAdmissible X s d)))"
  proof (cases "Matches X (getConstraint X (sel s) (Name a)) (Version a)")
    case False
    then show ?thesis unfolding eq by (simp add: satisfiableSpec_def Let_def)
  next
    case True
    show ?thesis
    proof (cases "getDependenciesOf s a")
      case (Inl err)
      with True show ?thesis unfolding eq by (simp add: satisfiableSpec_def Let_def)
    next
      case (Inr ds)
      show ?thesis
      proof (cases "find (\<lambda>d. \<not> depAdmissible X s d) ds")
        case None
        then have "\<forall>d \<in> set ds. depAdmissible X s d"
          by (auto simp: find_None_iff)
        moreover have "satisfiableSpec X s a = (None, s)"
          using True Inr None by (simp add: satisfiableSpec_def Let_def)
        ultimately show ?thesis unfolding eq using True Inr by simp
      next
        case (Some d)
        then have "\<not> (\<forall>d \<in> set ds. depAdmissible X s d)"
          by (auto simp: find_Some_iff)
        moreover have "satisfiableSpec X s a = depFailure X s a d"
          using True Inr Some by (simp add: satisfiableSpec_def Let_def)
        ultimately show ?thesis unfolding eq using Inr fst_failure [of d]
          by (cases "depFailure X s a d") auto
      qed
    qed
  qed
qed

text \<open>
  The backtracking scenario after the root and then A at 2 are committed: B is on the
  frontier with the inbound constraint "from 2 on".
\<close>

definition backtrackSeeded :: "(nat, range) solver" where
  "backtrackSeeded =
     (case selectVersion (SolveInit (NewSolver (tableManager backtrackTable)) backtrackRoot [])
             (pa backtrackRoot) of
        Inl p \<Rightarrow> NewSolver (tableManager backtrackTable)
      | Inr s \<Rightarrow> s)"

definition conflictState :: "(nat, range) solver" where
  "conflictState =
     (case selectVersion backtrackSeeded (exAtom ''A'' 2) of
        Inl p \<Rightarrow> backtrackSeeded
      | Inr s \<Rightarrow> s)"

theorem satisfiable_refines_spec_witness:
  "exAtom ''B'' 1 \<noteq> emptyProjectAtom \<and>
   map_sum id fst (satisfiable ranges conflictState (exAtom ''B'' 1)) =
     Inr (Some (VersionNotAllowed (exAtom ''B'' 1)
                  [\<lparr>Depender = exAtom ''A'' 2, Dep = exDep ''B'' (2, None)\<rparr>] (2, None))) \<and>
   map_sum id fst (satisfiable ranges backtrackSeeded (exAtom ''A'' 2)) = Inr None"
proof -
  have n: "exAtom ''B'' 1 \<noteq> emptyProjectAtom" "exAtom ''A'' 2 \<noteq> emptyProjectAtom"
    by (simp_all add: exAtom_def emptyProjectAtom_def)
  have e: "fst (satisfiableSpec ranges conflictState (exAtom ''B'' 1)) =
             Some (VersionNotAllowed (exAtom ''B'' 1)
                  [\<lparr>Depender = exAtom ''A'' 2, Dep = exDep ''B'' (2, None)\<rparr>] (2, None))"
          "fst (satisfiableSpec ranges backtrackSeeded (exAtom ''A'' 2)) = None"
    by code_simp+
  from satisfiable_refines_spec [OF n(1), of ranges conflictState]
       satisfiable_refines_spec [OF n(2), of ranges backtrackSeeded] n e
  show ?thesis by simp
qed

text \<open>
  C2 as stated fails where the project info of the atom cannot be fetched: A at 7 passes
  phase 1 (nothing constrains A beyond "any"), the table has no such version, and
  \<^verbatim>\<open>satisfiable\<close> returns the source manager's error, which is none of the three kinds.
\<close>

theorem satisfiable_fetch_error:
  "exAtom ''A'' 7 \<noteq> emptyProjectAtom \<and>
   Matches ranges (getConstraint ranges (sel backtrackSeeded) ''A'') (Some 7) \<and>
   map_sum id fst (satisfiable ranges backtrackSeeded (exAtom ''A'' 7)) =
     Inr (Some (SourceError ''no such version''))"
  by code_simp

section \<open>The walk of findValidVersion\<close>

lemma advance_fails:
  "advance q (Some err) = (q', adverr) \<Longrightarrow> fails q' = fails q @ [err] \<and> ref q' = ref q"
  by (auto simp: advance_def Let_def split: if_splits prod.splits option.splits)

lemma marksOnly_fails:
  "marksOnly s s' \<Longrightarrow> fails (mem s' q) = fails (mem s q) \<and> ref (mem s' q) = ref (mem s q)"
  by (simp add: marksOnly_def sameQueue_def)

lemma fvvLoop_fails:
  "fvvLoop X s q = Inr (b, s') \<Longrightarrow>
     (\<exists>new. fails (mem s' q) = fails (mem s q) @ new) \<and> ref (mem s' q) = ref (mem s q)"
proof (induction X s q arbitrary: b s' rule: fvvLoop.induct)
  case (1 X s q)
  let ?atom = "\<lparr>Name = ref (mem s q), Version = current (mem s q)\<rparr>"
  show ?case
  proof (cases "satisfiable X s ?atom")
    case (Inl p)
    with "1.prems" show ?thesis by (simp add: fvvLoop.simps [of X s q])
  next
    case (Inr r)
    obtain e s1 where r: "r = (e, s1)" by (cases r)
    from Inr r have m: "fails (mem s1 q) = fails (mem s q) \<and> ref (mem s1 q) = ref (mem s q)"
      by (auto dest!: satisfiable_marksOnly marksOnly_fails)
    show ?thesis
    proof (cases e)
      case None
      with Inr r "1.prems" m show ?thesis by (simp add: fvvLoop.simps [of X s q])
    next
      case (Some err)
      obtain q' adverr where adv: "advance (mem s1 q) (Some err) = (q', adverr)"
        by (cases "advance (mem s1 q) (Some err)")
      let ?s2 = "s1\<lparr>mem := (mem s1)(q := q')\<rparr>"
      from advance_fails [OF adv] m
      have m2: "fails (mem ?s2 q) = fails (mem s q) @ [err] \<and> ref (mem ?s2 q) = ref (mem s q)"
        by simp
      show ?thesis
      proof (cases "adverr \<noteq> None \<or> isExhausted (mem ?s2 q)")
        case True
        with Inr r Some adv "1.prems" have "s' = ?s2"
          by (auto simp: fvvLoop.simps [of X s q] Let_def split: if_splits)
        with m2 show ?thesis by simp
      next
        case False
        with Inr r Some adv "1.prems" have "fvvLoop X ?s2 q = Inr (b, s')"
          by (auto simp: fvvLoop.simps [of X s q] Let_def split: if_splits)
        with "1.IH" [OF refl Inr r [symmetric] Some adv [symmetric] refl] False
        have "(\<exists>new. fails (mem s' q) = fails (mem ?s2 q) @ new) \<and> ref (mem s' q) = ref (mem ?s2 q)"
          by auto
        with m2 show ?thesis by auto
      qed
    qed
  qed
qed

text \<open>
  The four ways one round of the walk goes: the current version is satisfiable and the
  walk ends with success; \<^verbatim>\<open>advance\<close> fails, or leaves the queue exhausted, and the walk
  ends without a version; or the walk goes on with the next candidate.
\<close>

lemma fvvLoop_found:
  assumes "satisfiable X s \<lparr>Name = ref (mem s q), Version = current (mem s q)\<rparr> = Inr (None, s1)"
  shows "fvvLoop X s q = Inr (True, s1)"
  using assms by (simp add: fvvLoop.simps [of X s q])

lemma fvvLoop_advance_error:
  assumes "satisfiable X s \<lparr>Name = ref (mem s q), Version = current (mem s q)\<rparr> = Inr (Some err, s1)"
    and "advance (mem s1 q) (Some err) = (q', Some e)"
  shows "fvvLoop X s q = Inr (False, s1\<lparr>mem := (mem s1)(q := q')\<rparr>)"
  using assms by (simp add: fvvLoop.simps [of X s q])

lemma fvvLoop_exhausted:
  assumes "satisfiable X s \<lparr>Name = ref (mem s q), Version = current (mem s q)\<rparr> = Inr (Some err, s1)"
    and "advance (mem s1 q) (Some err) = (q', None)" and "isExhausted q'"
  shows "fvvLoop X s q = Inr (False, s1\<lparr>mem := (mem s1)(q := q')\<rparr>)"
  using assms by (simp add: fvvLoop.simps [of X s q])

lemma fvvLoop_next:
  assumes "satisfiable X s \<lparr>Name = ref (mem s q), Version = current (mem s q)\<rparr> = Inr (Some err, s1)"
    and "advance (mem s1 q) (Some err) = (q', None)" and "\<not> isExhausted q'"
  shows "fvvLoop X s q = fvvLoop X (s1\<lparr>mem := (mem s1)(q := q')\<rparr>) q"
  using assms by (simp add: fvvLoop.simps [of X s q])

text \<open>
  When the walk over the queue \<open>q\<close> has ended without a version and \<^verbatim>\<open>q.ref\<close> has an
  inbound edge, the driver calls \<^verbatim>\<open>fail\<close> on the depender of the first such edge and
  returns NoVersion for \<^verbatim>\<open>q.ref\<close> whose \<^verbatim>\<open>fails\<close> are the entries the walk appended to the
  queue's log: the log after the walk is the log at entry followed by them. When \<^verbatim>\<open>q.ref\<close>
  has no inbound edge, \<^verbatim>\<open>getDependenciesOn(q.ref)[0]\<close> is out of range.
\<close>

lemma findValidVersion_no_version:
  assumes "current (mem s q) \<noteq> None"
    and "fvvLoop X s q = Inr (False, s1)"
    and "getDependenciesOn (sel s) (ref (mem s q)) = d # ds"
  shows "findValidVersion X s q =
           Inr (Some (NoVersion (ref (mem s q)) (drop (length (fails (mem s q))) (fails (mem s1 q)))),
                fail s1 (Name (Depender d))) \<and>
         fails (mem s1 q) =
           fails (mem s q) @ drop (length (fails (mem s q))) (fails (mem s1 q))"
proof -
  from fvvLoop_fails [OF assms(2)] obtain new where
    f: "fails (mem s1 q) = fails (mem s q) @ new" and r: "ref (mem s1 q) = ref (mem s q)"
    by auto
  from fvvLoop_queuesOnly [OF assms(2)] have sl: "sel s1 = sel s"
    by (simp add: queuesOnly_def)
  have m: "fails (mem (fail s1 n) q) = fails (mem s1 q) \<and> ref (mem (fail s1 n) q) = ref (mem s1 q)" for n
    using fail_marksOnly [of s1 n] by (rule marksOnly_fails)
  show ?thesis
    using assms by (simp add: findValidVersion_def Let_def sl r m f)
qed

lemma findValidVersion_no_edge:
  assumes "current (mem s q) \<noteq> None"
    and "fvvLoop X s q = Inr (False, s1)"
    and "getDependenciesOn (sel s) (ref (mem s q)) = []"
  shows "findValidVersion X s q = Inl (Panic ''index out of range'')"
proof -
  from fvvLoop_fails [OF assms(2)] have r: "ref (mem s1 q) = ref (mem s q)" by simp
  from fvvLoop_queuesOnly [OF assms(2)] have sl: "sel s1 = sel s"
    by (simp add: queuesOnly_def)
  show ?thesis
    using assms by (simp add: findValidVersion_def Let_def sl r)
qed

text \<open>
  The backtracking scenario one step on: A at 2 is committed with its queue on the
  stack, and the queue for B has just been made. Its walk finds nothing.
\<close>

definition stepOne :: "(nat, range) solver" where
  "stepOne = (case solveStep ranges backtrackSeeded of Inr (Continue s) \<Rightarrow> s | _ \<Rightarrow> backtrackSeeded)"

definition walkStart :: "(nat, range) solver" where
  "walkStart =
     (case newVersionQueue ranges ''B'' (getLockVersionIfValid ranges stepOne ''B'') (sm stepOne) of
        Inl err \<Rightarrow> stepOne
      | Inr q0 \<Rightarrow> snd (alloc stepOne q0))"

definition walked :: "(nat, range) solver" where
  "walked = (case fvvLoop ranges walkStart 1 of Inl p \<Rightarrow> walkStart | Inr r \<Rightarrow> snd r)"

lemma walked_eq: "fvvLoop ranges walkStart 1 = Inr (False, walked)"
proof -
  have "case fvvLoop ranges walkStart 1 of Inl p \<Rightarrow> False | Inr r \<Rightarrow> \<not> fst r"
    by code_simp
  then show ?thesis
    unfolding walked_def by (cases "fvvLoop ranges walkStart 1") auto
qed

lemma findValidVersion_no_version_example:
  "findValidVersion ranges walkStart 1 =
     Inr (Some (NoVersion (ref (mem walkStart 1))
                  (drop (length (fails (mem walkStart 1))) (fails (mem walked 1)))),
          fail walked (Name (Depender \<lparr>Depender = exAtom ''A'' 2, Dep = exDep ''B'' (2, None)\<rparr>))) \<and>
   ref (mem walkStart 1) = ''B'' \<and>
   drop (length (fails (mem walkStart 1))) (fails (mem walked 1)) =
     [VersionNotAllowed (exAtom ''B'' 1)
        [\<lparr>Depender = exAtom ''A'' 2, Dep = exDep ''B'' (2, None)\<rparr>] (2, None)] \<and>
   versions walked = [0] \<and> ref (mem walked 0) = ''A'' \<and>
   failed (mem (fail walked ''A'') 0)"
proof -
  have c: "current (mem walkStart 1) \<noteq> None"
    by code_simp
  have e: "getDependenciesOn (sel walkStart) (ref (mem walkStart 1)) =
             \<lparr>Depender = exAtom ''A'' 2, Dep = exDep ''B'' (2, None)\<rparr> # []"
    by code_simp
  have v: "ref (mem walkStart 1) = ''B''"
          "drop (length (fails (mem walkStart 1))) (fails (mem walked 1)) =
             [VersionNotAllowed (exAtom ''B'' 1)
                [\<lparr>Depender = exAtom ''A'' 2, Dep = exDep ''B'' (2, None)\<rparr>] (2, None)]"
          "versions walked = [0]" "ref (mem walked 0) = ''A''"
          "failed (mem (fail walked ''A'') 0)"
    by code_simp+
  from findValidVersion_no_version [OF c walked_eq e] v
  show ?thesis by (intro conjI) (erule conjunct1 | assumption)+
qed

section \<open>States between driver steps\<close>

text \<open>
  The states of a solve between driver steps: the state after the root is seeded, and the
  state after each iteration of the loop of \<^verbatim>\<open>solve\<close>, be it a commit, a successful
  backtrack, or the return (after a failed backtrack or with an empty frontier).
\<close>

inductive reachable ::
  "('v, 'c) externals \<Rightarrow> ('v, 'c) solver \<Rightarrow> ('v, 'c) ProjectInfo \<Rightarrow> ProjectName list \<Rightarrow>
   ('v, 'c) solver \<Rightarrow> bool"
  for X s0 root upg where
    seeded:
      "selectVersion (SolveInit s0 root upg) (pa (rp (SolveInit s0 root upg))) = Inr s \<Longrightarrow>
       reachable X s0 root upg s"
  | continued:
      "reachable X s0 root upg s \<Longrightarrow> solveStep X s = Inr (Continue s') \<Longrightarrow>
       reachable X s0 root upg s'"
  | returned:
      "reachable X s0 root upg s \<Longrightarrow> solveStep X s = Inr (Return ps err s') \<Longrightarrow>
       reachable X s0 root upg s'"

lemma solve_reachable:
  "reachable X s0 root upg s \<Longrightarrow> solve X n s = Some (Inr (res, s')) \<Longrightarrow>
   reachable X s0 root upg s'"
proof (induction n arbitrary: s)
  case 0
  then show ?case by simp
next
  case (Suc n)
  show ?case
  proof (cases "solveStep X s")
    case (Inl p)
    with Suc.prems show ?thesis by simp
  next
    case (Inr st)
    show ?thesis
    proof (cases st)
      case (Continue s1)
      with Inr Suc.prems have "reachable X s0 root upg s1" "solve X n s1 = Some (Inr (res, s'))"
        by (auto intro: reachable.continued)
      then show ?thesis by (rule Suc.IH)
    next
      case (Return ps err s1)
      with Inr Suc.prems show ?thesis
        by (auto intro: reachable.returned)
    qed
  qed
qed

text \<open>
  What stays the same when only queue objects are made or changed.
\<close>

definition storeOnly :: "('v, 'c) solver \<Rightarrow> ('v, 'c) solver \<Rightarrow> bool" where
  "storeOnly s s' =
     (sm s' = sm s \<and> latest s' = latest s \<and> sel s' = sel s \<and> unsel s' = unsel s \<and>
      versions s' = versions s \<and> rp s' = rp s \<and> rlm s' = rlm s \<and> attempts s' = attempts s)"

lemma queuesOnly_storeOnly: "queuesOnly s s' \<Longrightarrow> storeOnly s s'"
  by (simp add: queuesOnly_def storeOnly_def)

lemma createVersionQueueLocked_storeOnly:
  "createVersionQueueLocked X s r = Inr (res, s') \<Longrightarrow> storeOnly s s'"
  by (auto simp: createVersionQueueLocked_def Let_def alloc_def storeOnly_def queuesOnly_def
           split: sum.splits prod.splits dest!: findValidVersion_queuesOnly)

lemma createVersionQueue_storeOnly:
  "createVersionQueue X s r = Inr (res, s') \<Longrightarrow> storeOnly s s'"
  by (auto simp: createVersionQueue_def alloc_def split: if_splits sum.splits prod.splits option.splits
           dest: createVersionQueueLocked_storeOnly)
     (auto simp: storeOnly_def)

lemma selectLoop_projects: "selectLoop a ds s = Inr s' \<Longrightarrow> projects (sel s') = projects (sel s)"
proof (induction ds arbitrary: s)
  case Nil
  then show ?case by simp
next
  case (Cons d ds)
  then show ?case
    by (fastforce simp: Let_def split: if_splits sum.splits dest!: heapPush_frontierOnly)
qed

lemma selectVersion_projects:
  "selectVersion s a = Inr s' \<Longrightarrow> projects (sel s') = projects (sel s) @ [a]"
  by (auto simp: selectVersion_def Let_def split: sum.splits dest!: selectLoop_projects)

lemma unselectLoop_projects: "unselectLoop ds s = Inr s' \<Longrightarrow> projects (sel s') = projects (sel s)"
proof (induction ds arbitrary: s)
  case Nil
  then show ?case by simp
next
  case (Cons d ds)
  then show ?case
    by (fastforce simp: Let_def split: if_splits)
qed

lemma unselectLast_projects:
  "unselectLast s = Inr s' \<Longrightarrow>
     projects (sel s) \<noteq> [] \<and> projects (sel s') = butlast (projects (sel s))"
  by (auto simp: unselectLast_def Let_def split: sum.splits if_splits
           dest!: unselectLoop_projects heapPush_frontierOnly)

definition stackMatches :: "('v, 'c) solver \<Rightarrow> bool" where
  "stackMatches s = (Suc (length (versions s)) = length (projects (sel s)))"

lemma backtrackPop_stackMatches:
  "backtrackPop s = Inr (b, s') \<Longrightarrow> stackMatches s \<Longrightarrow> stackMatches s'"
proof (induction s arbitrary: b s' rule: backtrackPop.induct)
  case (1 s)
  show ?case
  proof (cases "length (versions s) = 0 \<or> failed (mem s (last (versions s)))")
    case True
    with "1.prems" show ?thesis
      by (auto simp: backtrackPop.simps [of s] split: if_splits)
  next
    case False
    let ?s0 = "s\<lparr>versions := butlast (versions s)\<rparr>"
    from False "1.prems" obtain s1 where u: "unselectLast ?s0 = Inr s1" and r: "backtrackPop s1 = Inr (b, s')"
      by (auto simp: backtrackPop.simps [of s] split: if_splits sum.splits)
    from u have "versions s1 = butlast (versions s)"
      by (auto dest!: unselectLast_frontierOnly simp: frontierOnly_def)
    moreover from u have "projects (sel s1) = butlast (projects (sel s))"
      by (auto dest!: unselectLast_projects)
    ultimately have "stackMatches s1" using "1.prems"(2) False
      by (simp add: stackMatches_def)
    with "1.IH" [OF _ _ u r] False show ?thesis by auto
  qed
qed

lemma backtrackLoop_stackMatches:
  "backtrackLoop X s = Inr (b, s') \<Longrightarrow> stackMatches s \<Longrightarrow> stackMatches s'"
proof (induction X s arbitrary: b s' rule: backtrackLoop.induct)
  case (1 X s)
  from "1.prems"(1) obtain b1 s1 where p: "backtrackPop s = Inr (b1, s1)"
    by (cases "backtrackPop s") (auto simp: backtrackLoop.simps [of X s])
  from backtrackPop_stackMatches [OF p "1.prems"(2)] have m1: "stackMatches s1" .
  show ?case
  proof (cases b1)
    case False
    with p "1.prems"(1) m1 show ?thesis by (simp add: backtrackLoop.simps [of X s])
  next
    case True
    then have bt: "b1 = True" by simp
    let ?q = "last (versions s1)"
    from True p "1.prems"(1) obtain s2 where u: "unselectLast s1 = Inr s2"
      by (cases "unselectLast s1") (auto simp: backtrackLoop.simps [of X s] Let_def)
    obtain q' adverr where adv: "advance (mem s2 ?q) None = (q', adverr)"
      by (cases "advance (mem s2 ?q) None")
    let ?s3 = "s2\<lparr>mem := (mem s2)(?q := q')\<rparr>"
    from u have v2: "versions s2 = versions s1"
      by (auto dest!: unselectLast_frontierOnly simp: frontierOnly_def)
    from u have p2: "projects (sel s2) = butlast (projects (sel s1))"
      by (auto dest!: unselectLast_projects)
    from backtrackPop_versions [OF p] True have ne: "versions s1 \<noteq> []" by simp
    have popped: "stackMatches (t\<lparr>versions := butlast (versions t)\<rparr>)"
      if "versions t = versions s2" "sel t = sel s2" for t
      using that m1 v2 p2 ne by (cases "versions s1") (auto simp: stackMatches_def)
    show ?thesis
    proof (cases "adverr = None \<and> \<not> isExhausted (mem ?s3 ?q)")
      case False
      with True p u adv "1.prems"(1)
      have r: "backtrackLoop X (?s3\<lparr>versions := butlast (versions ?s3)\<rparr>) = Inr (b, s')"
        by (auto simp: backtrackLoop.simps [of X s] Let_def split: if_splits)
      have "stackMatches (?s3\<lparr>versions := butlast (versions ?s3)\<rparr>)"
        by (rule popped) simp_all
      with "1.IH"(2) [OF p refl bt refl u adv [symmetric] refl False r] show ?thesis .
    next
      case ok: True
      from True p u adv ok "1.prems"(1) obtain e s4 where f: "findValidVersion X ?s3 ?q = Inr (e, s4)"
        by (cases "findValidVersion X ?s3 ?q")
           (auto simp: backtrackLoop.simps [of X s] Let_def split: if_splits)
      from findValidVersion_queuesOnly [OF f] have q4: "versions s4 = versions s2" "sel s4 = sel s2"
        by (simp_all add: queuesOnly_def)
      show ?thesis
      proof (cases e)
        case None
        with True p u adv ok f "1.prems"(1)
        have sv: "selectVersion s4 \<lparr>Name = ref (mem s4 ?q), Version = current (mem s4 ?q)\<rparr> = Inr s'"
          by (auto simp: backtrackLoop.simps [of X s] Let_def split: if_splits sum.splits)
        from selectVersion_projects [OF sv] selectVersion_frontierOnly [OF sv] q4 v2 p2 m1
        show ?thesis
          by (cases "projects (sel s1)" rule: rev_cases) (auto simp: stackMatches_def frontierOnly_def)
      next
        case (Some err)
        with True p u adv ok f "1.prems"(1)
        have r: "backtrackLoop X (s4\<lparr>versions := butlast (versions s4)\<rparr>) = Inr (b, s')"
          by (auto simp: backtrackLoop.simps [of X s] Let_def split: if_splits)
        have "stackMatches (s4\<lparr>versions := butlast (versions s4)\<rparr>)"
          by (rule popped) (simp_all add: q4)
        with "1.IH"(1) [OF p refl bt refl u adv [symmetric] refl ok f refl Some r] show ?thesis .
      qed
    qed
  qed
qed

lemma backtrack_stackMatches:
  "backtrack X s = Inr (b, s') \<Longrightarrow> stackMatches s \<Longrightarrow> stackMatches s'"
  by (auto simp: backtrack_def stackMatches_def split: if_splits sum.splits bool.splits
           dest!: backtrackLoop_stackMatches)

lemma solveStep_stackMatches:
  assumes "stackMatches s"
  shows "solveStep X s = Inr (Continue s') \<Longrightarrow> stackMatches s'"
    and "solveStep X s = Inr (Return ps err s') \<Longrightarrow> stackMatches s'"
proof -
  have c: "stackMatches s1" if "createVersionQueue X s r = Inr (res, s1)" for r res s1
    using createVersionQueue_storeOnly [OF that] assms by (simp add: storeOnly_def stackMatches_def)
  have sv: "stackMatches (s2\<lparr>versions := versions s2 @ [q]\<rparr>)"
    if "stackMatches s1" "selectVersion s1 a = Inr s2" for s1 s2 a q
    using that selectVersion_projects [OF that(2)] selectVersion_frontierOnly [OF that(2)]
    by (simp add: stackMatches_def frontierOnly_def)
  show "solveStep X s = Inr (Continue s') \<Longrightarrow> stackMatches s'"
    using assms
    by (auto simp: solveStep_def split: prod.splits bool.splits sum.splits option.splits if_splits
             dest!: c backtrack_stackMatches intro: sv)
  show "solveStep X s = Inr (Return ps err s') \<Longrightarrow> stackMatches s'"
    using assms
    by (auto simp: solveStep_def split: prod.splits bool.splits sum.splits option.splits if_splits
             dest!: c backtrack_stackMatches)
qed

text \<open>
  In a solve that starts with an empty queue stack (as every solve on a solver fresh from
  \<^verbatim>\<open>NewSolver\<close> does), in every state between driver steps the selection is not empty and
  the queue stack has one entry less than the selection has atoms.
\<close>

lemma versions_length_invariant:
  assumes "versions s0 = []" and "reachable X s0 root upg s"
  shows "projects (sel s) \<noteq> [] \<and> length (versions s) = length (projects (sel s)) - 1"
proof -
  from assms(2) have "stackMatches s"
  proof (induction rule: reachable.induct)
    case (seeded s)
    from selectVersion_projects [OF seeded] selectVersion_frontierOnly [OF seeded] assms(1)
    show ?case
      by (simp add: stackMatches_def frontierOnly_def SolveInit_def Let_def split: option.splits)
  next
    case (continued s s')
    then show ?case by (auto intro: solveStep_stackMatches(1))
  next
    case (returned s ps err s')
    then show ?case by (auto intro: solveStep_stackMatches(2))
  qed
  then show ?thesis by (auto simp: stackMatches_def)
qed

text \<open>
  In the backtracking scenario the second iteration of the loop fails on B and backtracks
  into the queue of A.
\<close>

definition stepTwo :: "(nat, range) solver" where
  "stepTwo = (case solveStep ranges stepOne of Inr (Continue s) \<Rightarrow> s | _ \<Rightarrow> stepOne)"

lemma backtrackSeeded_eq:
  "selectVersion (SolveInit (NewSolver (tableManager backtrackTable)) backtrackRoot [])
     (pa (rp (SolveInit (NewSolver (tableManager backtrackTable)) backtrackRoot []))) = Inr backtrackSeeded"
proof -
  have r: "pa (rp (SolveInit (NewSolver (tableManager backtrackTable)) backtrackRoot [])) = pa backtrackRoot"
    by (simp add: SolveInit_def Let_def split: option.splits)
  have "case selectVersion (SolveInit (NewSolver (tableManager backtrackTable)) backtrackRoot [])
               (pa backtrackRoot) of
          Inl p \<Rightarrow> False | Inr s \<Rightarrow> True"
    by code_simp
  then show ?thesis
    unfolding r backtrackSeeded_def
    by (cases "selectVersion (SolveInit (NewSolver (tableManager backtrackTable)) backtrackRoot [])
                 (pa backtrackRoot)") auto
qed

lemma stepOne_eq: "solveStep ranges backtrackSeeded = Inr (Continue stepOne)"
proof -
  have "case solveStep ranges backtrackSeeded of Inr (Continue s) \<Rightarrow> True | _ \<Rightarrow> False"
    by code_simp
  then show ?thesis
    unfolding stepOne_def
    by (cases "solveStep ranges backtrackSeeded") (auto split: step.splits)
qed

lemma stepTwo_eq: "solveStep ranges stepOne = Inr (Continue stepTwo)"
proof -
  have "case solveStep ranges stepOne of Inr (Continue s) \<Rightarrow> True | _ \<Rightarrow> False"
    by code_simp
  then show ?thesis
    unfolding stepTwo_def
    by (cases "solveStep ranges stepOne") (auto split: step.splits)
qed

lemma stepTwo_reachable:
  "reachable ranges (NewSolver (tableManager backtrackTable)) backtrackRoot [] stepTwo"
  by (rule reachable.continued [OF reachable.continued [OF reachable.seeded]])
     (rule backtrackSeeded_eq stepOne_eq stepTwo_eq)+

lemma versions_length_invariant_example:
  "versions (NewSolver (tableManager backtrackTable)) = [] \<and>
   attempts stepTwo = 1 \<and>
   projects (sel stepTwo) = [exAtom ''R'' 1, exAtom ''A'' 1] \<and>
   length (versions stepTwo) = length (projects (sel stepTwo)) - 1"
proof -
  have e: "versions (NewSolver (tableManager backtrackTable)) = []"
    by (simp add: NewSolver_def)
  have v: "attempts stepTwo = 1" "projects (sel stepTwo) = [exAtom ''R'' 1, exAtom ''A'' 1]"
    by code_simp+
  from versions_length_invariant [OF e stepTwo_reachable] e v
  show ?thesis by simp
qed

text \<open>
  C3. The queue stack does not have one entry less than the selection has atoms in every
  state between driver steps: \<^verbatim>\<open>Solve\<close> makes a new selection and a new frontier and leaves
  \<^verbatim>\<open>s.versions\<close> as the solve before left it. After the first solve of the backtracking
  scenario has returned R and A at 1, a second \<^verbatim>\<open>Solve\<close> on the same solver seeds the root
  next to the queue the first solve left: one atom, one queue.
\<close>

theorem versions_length_second_solve:
  "map_option (map_sum id (\<lambda>r. Projects (fst r))) firstRun
     = Some (Inr [exAtom ''R'' 1, exAtom ''A'' 1]) \<and>
   map_option (map_sum id (\<lambda>r. versions (snd r))) firstRun = Some (Inr (versions afterFirstRun)) \<and>
   reachable ranges afterFirstRun backtrackRoot [] secondSeeded \<and>
   length (projects (sel secondSeeded)) = 1 \<and>
   length (versions secondSeeded) = 1 \<and>
   length (versions secondSeeded) \<noteq> length (projects (sel secondSeeded)) - 1"
proof -
  have a: "map_option (map_sum id (\<lambda>r. Projects (fst r))) firstRun
             = Some (Inr [exAtom ''R'' 1, exAtom ''A'' 1])"
          "map_option (map_sum id (\<lambda>r. versions (snd r))) firstRun = Some (Inr (versions afterFirstRun))"
          "length (projects (sel secondSeeded)) = 1"
          "length (versions secondSeeded) = 1"
    by code_simp+
  have b: "reachable ranges afterFirstRun backtrackRoot [] secondSeeded"
    by (rule reachable.seeded) (rule secondSeeded_eq)
  from a b show ?thesis by simp
qed

section \<open>Selecting and retracting are inverse\<close>

text \<open>The frontier as a multiset: \<^verbatim>\<open>heap.Push\<close> adds one member and never panics.\<close>

lemma Swap_mset:
  "i < length (unsel s) \<Longrightarrow> j < length (unsel s) \<Longrightarrow> mset (unsel (Swap s i j)) = mset (unsel s)"
  by (simp add: Swap_def mset_swap)

lemma up_total:
  "j < length (unsel s) \<Longrightarrow> \<exists>s'. up s j = Inr s' \<and> mset (unsel s') = mset (unsel s)"
proof (induction s j rule: up.induct)
  case (1 s j)
  let ?i = "parent j"
  have le: "?i \<le> j" by (simp add: parent_def)
  with "1.prems" have il: "?i < length (unsel s)" by simp
  show ?case
  proof (cases "?i = j")
    case True
    then show ?thesis by (simp add: up.simps [of s j])
  next
    case False
    from il "1.prems" have c: "unselectedComparator s j ?i = Inr (compareNames s (unsel s ! j) (unsel s ! ?i))"
      by (simp add: unselectedComparator_def)
    show ?thesis
    proof (cases "compareNames s (unsel s ! j) (unsel s ! ?i)")
      case b: False
      with False c show ?thesis by (simp add: up.simps [of s j])
    next
      case b: True
      have "?i < length (unsel (Swap s ?i j))" using il by (simp add: Swap_def)
      from "1.IH" [OF refl False c _ this] b
      obtain s' where "up (Swap s ?i j) ?i = Inr s'" "mset (unsel s') = mset (unsel (Swap s ?i j))"
        by auto
      with False c b il "1.prems" show ?thesis
        by (simp add: up.simps [of s j] Swap_mset)
    qed
  qed
qed

lemma heapPush_total:
  "\<exists>s'. heapPush s n = Inr s' \<and> mset (unsel s') = add_mset n (mset (unsel s)) \<and>
        sel s' = sel s \<and> frontierOnly s s'"
proof -
  let ?s = "s\<lparr>unsel := unsel s @ [n]\<rparr>"
  have "length (unsel s) < length (unsel ?s)" by simp
  from up_total [OF this] obtain s' where u: "up ?s (length (unsel s)) = Inr s'"
    and m: "mset (unsel s') = mset (unsel ?s)" by auto
  from up_frontierOnly [OF u] have "frontierOnly s s' \<and> sel s' = sel s"
    by (simp add: frontierOnly_def)
  with u m show ?thesis by (simp add: heapPush_def)
qed

text \<open>The inbound edges of a name, and the edges an atom adds for its dependencies.\<close>

abbreviation edgesOn :: "('v, 'c) solver \<Rightarrow> ProjectName \<Rightarrow> ('v, 'c) Dependency list" where
  "edgesOn s n \<equiv> getDependenciesOn (sel s) n"

definition newEdges :: "'v ProjectAtom \<Rightarrow> 'c ProjectDep list \<Rightarrow> ProjectName \<Rightarrow> ('v, 'c) Dependency list" where
  "newEdges a ds n = map (\<lambda>d. \<lparr>Depender = a, Dep = d\<rparr>) (filter (\<lambda>d. pdName d = n) ds)"

lemma newEdges_Cons:
  "newEdges a (d # ds) n = (if pdName d = n then \<lparr>Depender = a, Dep = d\<rparr> # newEdges a ds n else newEdges a ds n)"
  by (simp add: newEdges_def)

lemma length_newEdges: "length (newEdges a ds n) = count_list (map pdName ds) n"
  by (induction ds) (auto simp: newEdges_def)

lemma mset_set_insert_remove:
  "finite A \<Longrightarrow> mset_set (insert x A) = add_mset x (mset_set (A - {x}))"
proof -
  assume "finite A"
  then have "mset_set (insert x (A - {x})) = add_mset x (mset_set (A - {x}))"
    by (intro mset_set.insert) auto
  then show ?thesis by simp
qed

lemma selectLoop_step:
  "\<exists>t. selectLoop a (d # ds) s = selectLoop a ds t \<and>
       (\<forall>n. edgesOn t n = (if n = pdName d then edgesOn s n @ [\<lparr>Depender = a, Dep = d\<rparr>] else edgesOn s n)) \<and>
       mset (unsel t) = mset (unsel s) + (if edgesOn s (pdName d) = [] then {#pdName d#} else {#}) \<and>
       dom (deps (sel t)) = insert (pdName d) (dom (deps (sel s))) \<and>
       projects (sel t) = projects (sel s) \<and> frontierOnly s t"
proof -
  let ?m = "pdName d"
  let ?e = "\<lparr>Depender = a, Dep = d\<rparr>"
  let ?s1 = "s\<lparr>sel := (sel s)\<lparr>deps := (deps (sel s))(?m \<mapsto> edgesOn s ?m @ [?e])\<rparr>\<rparr>"
  show ?thesis
  proof (cases "edgesOn s ?m = []")
    case True
    from heapPush_total [of ?s1 ?m] obtain t where
      h: "heapPush ?s1 ?m = Inr t" "mset (unsel t) = add_mset ?m (mset (unsel ?s1))"
         "sel t = sel ?s1" "frontierOnly ?s1 t" by auto
    with True show ?thesis
      by (intro exI [of _ t]) (simp add: Let_def getDependenciesOn_def frontierOnly_def)
  next
    case False
    then show ?thesis
      by (intro exI [of _ ?s1]) (simp add: Let_def getDependenciesOn_def frontierOnly_def)
  qed
qed

lemma selectLoop_closed:
  "\<exists>s'. selectLoop a ds s = Inr s' \<and>
        (\<forall>n. edgesOn s' n = edgesOn s n @ newEdges a ds n) \<and>
        mset (unsel s') = mset (unsel s) + mset_set {n \<in> pdName ` set ds. edgesOn s n = []} \<and>
        dom (deps (sel s')) = dom (deps (sel s)) \<union> pdName ` set ds \<and>
        projects (sel s') = projects (sel s) \<and> frontierOnly s s'"
proof (induction ds arbitrary: s)
  case Nil
  show ?case by (simp add: newEdges_def frontierOnly_def)
next
  case (Cons d ds)
  let ?m = "pdName d"
  from selectLoop_step [of a d ds s] obtain t where
    mid: "selectLoop a (d # ds) s = selectLoop a ds t"
         "\<forall>n. edgesOn t n = (if n = ?m then edgesOn s n @ [\<lparr>Depender = a, Dep = d\<rparr>] else edgesOn s n)"
         "mset (unsel t) = mset (unsel s) + (if edgesOn s ?m = [] then {#?m#} else {#})"
         "dom (deps (sel t)) = insert ?m (dom (deps (sel s)))"
         "projects (sel t) = projects (sel s)" "frontierOnly s t"
    by blast
  from Cons.IH [of t] obtain s' where
    r: "selectLoop a ds t = Inr s'"
       "\<forall>n. edgesOn s' n = edgesOn t n @ newEdges a ds n"
       "mset (unsel s') = mset (unsel t) + mset_set {n \<in> pdName ` set ds. edgesOn t n = []}"
       "dom (deps (sel s')) = dom (deps (sel t)) \<union> pdName ` set ds"
       "projects (sel s') = projects (sel t)" "frontierOnly t s'"
    by blast
  let ?A = "{n \<in> pdName ` set ds. edgesOn s n = []}"
  have fin: "finite ?A" by simp
  have A: "{n \<in> pdName ` set ds. edgesOn t n = []} = ?A - {?m}"
    using mid(2) by auto
  have F: "mset (unsel s') = mset (unsel s) + mset_set {n \<in> pdName ` set (d # ds). edgesOn s n = []}"
  proof (cases "edgesOn s ?m = []")
    case True
    then have "{n \<in> pdName ` set (d # ds). edgesOn s n = []} = insert ?m ?A"
      by auto
    with r(3) mid(3) A True mset_set_insert_remove [OF fin, of ?m] show ?thesis by simp
  next
    case False
    then have "{n \<in> pdName ` set (d # ds). edgesOn s n = []} = ?A - {?m}"
      by auto
    with r(3) mid(3) A False show ?thesis by simp
  qed
  have E: "\<forall>n. edgesOn s' n = edgesOn s n @ newEdges a (d # ds) n"
    using r(2) mid(2) by (simp add: newEdges_Cons)
  have D: "dom (deps (sel s')) = dom (deps (sel s)) \<union> pdName ` set (d # ds)"
    using r(4) mid(4) by auto
  from mid(1,5,6) r(1,5,6) E F D show ?case
    by (intro exI [of _ s']) (simp add: frontierOnly_def)
qed

lemma count_names: "(0 < count_list (map pdName ds) n) = (n \<in> pdName ` set ds)"
  by (induction ds) auto

lemma unselectLoop_step:
  assumes "edgesOn s (pdName d) \<noteq> []"
  shows "\<exists>t. unselectLoop (d # ds) s = unselectLoop ds t \<and>
       (\<forall>n. edgesOn t n = (if n = pdName d then butlast (edgesOn s n) else edgesOn s n)) \<and>
       unsel t = (if length (edgesOn s (pdName d)) = 1 then remove1 (pdName d) (unsel s) else unsel s) \<and>
       dom (deps (sel t)) = insert (pdName d) (dom (deps (sel s))) \<and>
       projects (sel t) = projects (sel s) \<and> frontierOnly s t"
proof -
  let ?m = "pdName d"
  let ?s1 = "s\<lparr>sel := (sel s)\<lparr>deps := (deps (sel s))(?m \<mapsto> butlast (edgesOn s ?m))\<rparr>\<rparr>"
  have one: "(butlast (edgesOn s ?m) = []) = (length (edgesOn s ?m) = 1)"
    using assms by (cases "edgesOn s ?m" rule: rev_cases) auto
  show ?thesis
  proof (cases "length (edgesOn s ?m) = 1")
    case True
    with assms one show ?thesis
      by (intro exI [of _ "?s1\<lparr>unsel := remove ?m (unsel ?s1)\<rparr>"])
         (simp add: Let_def getDependenciesOn_def frontierOnly_def remove_def)
  next
    case False
    with assms one show ?thesis
      by (intro exI [of _ ?s1]) (simp add: Let_def getDependenciesOn_def frontierOnly_def)
  qed
qed

lemma unselectLoop_closed:
  assumes "\<forall>n. count_list (map pdName ds) n \<le> length (edgesOn s n)"
    and "\<forall>n \<in> pdName ` set ds. length (edgesOn s n) = count_list (map pdName ds) n \<longrightarrow> n \<in> set (unsel s)"
  shows "\<exists>s'. unselectLoop ds s = Inr s' \<and>
        (\<forall>n. edgesOn s' n = take (length (edgesOn s n) - count_list (map pdName ds) n) (edgesOn s n)) \<and>
        mset (unsel s') +
          mset_set {n \<in> pdName ` set ds. length (edgesOn s n) = count_list (map pdName ds) n}
          = mset (unsel s) \<and>
        dom (deps (sel s')) = dom (deps (sel s)) \<union> pdName ` set ds \<and>
        projects (sel s') = projects (sel s) \<and> frontierOnly s s'"
  using assms
proof (induction ds arbitrary: s)
  case Nil
  show ?case by (simp add: frontierOnly_def)
next
  case (Cons d ds)
  let ?m = "pdName d"
  let ?c = "count_list (map pdName ds)"
  from Cons.prems(1) have cm: "Suc (?c ?m) \<le> length (edgesOn s ?m)"
    by (auto dest: spec [of _ ?m])
  then have ne: "edgesOn s ?m \<noteq> []" by auto
  from unselectLoop_step [OF ne, of ds] obtain t where
    mid: "unselectLoop (d # ds) s = unselectLoop ds t"
         "\<forall>n. edgesOn t n = (if n = ?m then butlast (edgesOn s n) else edgesOn s n)"
         "unsel t = (if length (edgesOn s ?m) = 1 then remove1 ?m (unsel s) else unsel s)"
         "dom (deps (sel t)) = insert ?m (dom (deps (sel s)))"
         "projects (sel t) = projects (sel s)" "frontierOnly s t"
    by blast
  have notin: "?m \<notin> pdName ` set ds" if "length (edgesOn s ?m) = 1"
  proof
    assume "?m \<in> pdName ` set ds"
    then have "0 < ?c ?m" by (simp only: count_names)
    with cm that show False by simp
  qed
  have P': "\<forall>n. ?c n \<le> length (edgesOn t n)"
  proof
    fix n
    from Cons.prems(1) have "count_list (map pdName (d # ds)) n \<le> length (edgesOn s n)" by blast
    with mid(2) cm show "?c n \<le> length (edgesOn t n)"
      by (cases "n = ?m") (auto split: if_splits)
  qed
  have Q': "\<forall>n \<in> pdName ` set ds. length (edgesOn t n) = ?c n \<longrightarrow> n \<in> set (unsel t)"
  proof (intro ballI impI)
    fix n
    assume n: "n \<in> pdName ` set ds" and l: "length (edgesOn t n) = ?c n"
    show "n \<in> set (unsel t)"
    proof (cases "n = ?m")
      case True
      with l mid(2) cm have "length (edgesOn s ?m) = count_list (map pdName (d # ds)) ?m"
        by auto
      with Cons.prems(2) have "?m \<in> set (unsel s)" by auto
      moreover from n True notin have "length (edgesOn s ?m) \<noteq> 1" by auto
      ultimately show ?thesis using mid(3) True by simp
    next
      case False
      with l mid(2) have "length (edgesOn s n) = count_list (map pdName (d # ds)) n"
        by auto
      with Cons.prems(2) n have "n \<in> set (unsel s)" by auto
      with False mid(3) show ?thesis by auto
    qed
  qed
  from Cons.IH [OF P' Q'] obtain s' where
    r: "unselectLoop ds t = Inr s'"
       "\<forall>n. edgesOn s' n = take (length (edgesOn t n) - ?c n) (edgesOn t n)"
       "mset (unsel s') + mset_set {n \<in> pdName ` set ds. length (edgesOn t n) = ?c n} = mset (unsel t)"
       "dom (deps (sel s')) = dom (deps (sel t)) \<union> pdName ` set ds"
       "projects (sel s') = projects (sel t)" "frontierOnly t s'"
    by blast
  let ?A' = "{n \<in> pdName ` set ds. length (edgesOn t n) = ?c n}"
  let ?A = "{n \<in> pdName ` set (d # ds). length (edgesOn s n) = count_list (map pdName (d # ds)) n}"
  have E: "\<forall>n. edgesOn s' n =
             take (length (edgesOn s n) - count_list (map pdName (d # ds)) n) (edgesOn s n)"
  proof
    fix n
    show "edgesOn s' n = take (length (edgesOn s n) - count_list (map pdName (d # ds)) n) (edgesOn s n)"
    proof (cases "n = ?m")
      case True
      have "take (length (edgesOn s ?m) - Suc (?c ?m)) (butlast (edgesOn s ?m))
              = take (length (edgesOn s ?m) - Suc (?c ?m)) (edgesOn s ?m)"
        using ne by (intro take_butlast) (cases "edgesOn s ?m", auto)
      with r(2) mid(2) True show ?thesis by simp
    next
      case False
      with r(2) mid(2) show ?thesis by simp
    qed
  qed
  have F: "mset (unsel s') + mset_set ?A = mset (unsel s)"
  proof (cases "length (edgesOn s ?m) = 1")
    case True
    with cm have c0: "?c ?m = 0" by simp
    from True c0 have inA: "?m \<in> ?A" by simp
    with Cons.prems(2) have inU: "?m \<in> set (unsel s)" by blast
    have "?A = insert ?m ?A'" using mid(2) notin [OF True] True c0 by auto
    moreover have "?m \<notin> ?A'" using notin [OF True] by simp
    ultimately have "mset_set ?A = add_mset ?m (mset_set ?A')" by simp
    with r(3) mid(3) True inU show ?thesis by simp
  next
    case False
    have "?A = ?A'"
    proof (intro set_eqI iffI)
      fix n assume "n \<in> ?A"
      show "n \<in> ?A'"
      proof (cases "n = ?m")
        case True
        with \<open>n \<in> ?A\<close> have l: "length (edgesOn s ?m) = Suc (?c ?m)" by simp
        with False have "0 < ?c ?m" by simp
        then have "?m \<in> pdName ` set ds" by (simp only: count_names)
        with l True mid(2) show ?thesis by simp
      next
        case False
        with \<open>n \<in> ?A\<close> mid(2) show ?thesis by auto
      qed
    next
      fix n assume "n \<in> ?A'"
      with mid(2) cm show "n \<in> ?A" by (cases "n = ?m") auto
    qed
    with r(3) mid(3) False show ?thesis by simp
  qed
  have D: "dom (deps (sel s')) = dom (deps (sel s)) \<union> pdName ` set (d # ds)"
    using r(4) mid(4) by auto
  from mid(1,5,6) r(1,5,6) E F D show ?case
    by (intro exI [of _ s']) (simp add: frontierOnly_def)
qed

lemma getDependenciesOf_cong:
  "sm s' = sm s \<Longrightarrow> rp s' = rp s \<Longrightarrow> getDependenciesOf s' a = getDependenciesOf s a"
  by (auto simp: getDependenciesOf_def split: prod.splits option.splits)

text \<open>
  C4, amended. If \<^verbatim>\<open>selectVersion(A)\<close> returns, the \<^verbatim>\<open>unselectLast()\<close> after it returns
  too, and then: the list of committed atoms is as before; every name has the inbound
  edges it had before, in the same order (the map \<open>deps\<close> itself keeps a key, with no
  edges, for each dependency of A that was no key before); the frontier has the members
  it had before, each as often as before, when the name of A was on it, and otherwise
  the name of A in addition (the order of the slice may differ); every other field of
  the solver is unchanged.
\<close>

theorem select_unselect_inverse:
  assumes "selectVersion s a = Inr s1"
  shows "\<exists>s2 ds. unselectLast s1 = Inr s2 \<and> getDependenciesOf s a = Inr ds \<and>
           projects (sel s2) = projects (sel s) \<and>
           (\<forall>n. getDependenciesOn (sel s2) n = getDependenciesOn (sel s) n) \<and>
           dom (deps (sel s2)) = dom (deps (sel s)) \<union> pdName ` set ds \<and>
           mset (unsel s2) =
             (if Name a \<in> set (unsel s) then mset (unsel s) else add_mset (Name a) (mset (unsel s))) \<and>
           frontierOnly s s2"
proof -
  let ?U = "remove (Name a) (unsel s)"
  let ?sa = "s\<lparr>unsel := ?U, sel := (sel s)\<lparr>projects := projects (sel s) @ [a]\<rparr>\<rparr>"
  have ga: "getDependenciesOf ?sa a = getDependenciesOf s a"
    by (rule getDependenciesOf_cong) simp_all
  from assms obtain ds where ds: "getDependenciesOf s a = Inr ds" and sl: "selectLoop a ds ?sa = Inr s1"
    by (cases "getDependenciesOf s a") (auto simp: selectVersion_def Let_def ga)
  from selectLoop_closed [of a ds ?sa] sl have
    s1: "\<forall>n. edgesOn s1 n = edgesOn s n @ newEdges a ds n"
        "mset (unsel s1) = mset ?U + mset_set {n \<in> pdName ` set ds. edgesOn s n = []}"
        "dom (deps (sel s1)) = dom (deps (sel s)) \<union> pdName ` set ds"
        "projects (sel s1) = projects (sel s) @ [a]" "frontierOnly s s1"
    by (auto simp: frontierOnly_def getDependenciesOn_def)
  let ?sb = "s1\<lparr>sel := (sel s1)\<lparr>projects := butlast (projects (sel s1))\<rparr>\<rparr>"
  from heapPush_total [of ?sb "Name a"] obtain sc where
    sc: "heapPush ?sb (Name a) = Inr sc" "mset (unsel sc) = add_mset (Name a) (mset (unsel s1))"
        "sel sc = sel ?sb" "frontierOnly ?sb sc"
    by auto
  have gc: "getDependenciesOf sc a = Inr ds"
    using sc(4) s1(5) ds getDependenciesOf_cong [of sc s a] by (simp add: frontierOnly_def)
  have ec: "\<forall>n. edgesOn sc n = edgesOn s n @ newEdges a ds n"
    using s1(1) sc(3) by (simp add: getDependenciesOn_def)
  have P: "\<forall>n. count_list (map pdName ds) n \<le> length (edgesOn sc n)"
    using ec by (simp add: length_newEdges)
  have same: "(length (edgesOn sc n) = count_list (map pdName ds) n) = (edgesOn s n = [])" for n
    using ec by (simp add: length_newEdges)
  have Q: "\<forall>n \<in> pdName ` set ds. length (edgesOn sc n) = count_list (map pdName ds) n \<longrightarrow> n \<in> set (unsel sc)"
  proof (intro ballI impI)
    fix n
    assume "n \<in> pdName ` set ds" "length (edgesOn sc n) = count_list (map pdName ds) n"
    then have "n \<in> {n \<in> pdName ` set ds. edgesOn s n = []}" by (simp add: same)
    then have "n \<in># mset_set {n \<in> pdName ` set ds. edgesOn s n = []}" by simp
    then have "n \<in># mset (unsel sc)" unfolding sc(2) s1(2) by simp
    then show "n \<in> set (unsel sc)" by simp
  qed
  from unselectLoop_closed [OF P Q] obtain s2 where
    s2: "unselectLoop ds sc = Inr s2"
        "\<forall>n. edgesOn s2 n = take (length (edgesOn sc n) - count_list (map pdName ds) n) (edgesOn sc n)"
        "mset (unsel s2) +
           mset_set {n \<in> pdName ` set ds. length (edgesOn sc n) = count_list (map pdName ds) n}
           = mset (unsel sc)"
        "dom (deps (sel s2)) = dom (deps (sel sc)) \<union> pdName ` set ds"
        "projects (sel s2) = projects (sel sc)" "frontierOnly sc s2"
    by blast
  have u: "unselectLast s1 = Inr s2"
    using s1(4) sc(1) gc s2(1) by (simp add: unselectLast_def Let_def)
  have e2: "\<forall>n. getDependenciesOn (sel s2) n = getDependenciesOn (sel s) n"
    using s2(2) ec by (simp add: length_newEdges)
  have p2: "projects (sel s2) = projects (sel s)"
    using s2(5) sc(3) s1(4) by simp
  have d2: "dom (deps (sel s2)) = dom (deps (sel s)) \<union> pdName ` set ds"
    using s2(4) sc(3) s1(3) by auto
  have "mset (unsel s2) + mset_set {n \<in> pdName ` set ds. edgesOn s n = []}
          = add_mset (Name a) (mset ?U) + mset_set {n \<in> pdName ` set ds. edgesOn s n = []}"
    using s2(3) sc(2) s1(2) by (simp add: same)
  then have "mset (unsel s2) = add_mset (Name a) (mset ?U)" by simp
  then have m2: "mset (unsel s2) =
      (if Name a \<in> set (unsel s) then mset (unsel s) else add_mset (Name a) (mset (unsel s)))"
    by (simp add: remove_def remove1_idem)
  have f2: "frontierOnly s s2"
    using s1(5) sc(4) s2(6) by (simp add: frontierOnly_def)
  from u ds p2 e2 d2 m2 f2 show ?thesis by blast
qed

text \<open>
  A root with three dependencies, of which A declares one on D. After seeding, the
  frontier is A, B, C.
\<close>

definition threeTable :: table where
  "threeTable =
     [(''R'', [(1, [exDep ''A'' (0, None), exDep ''B'' (0, None), exDep ''C'' (0, None)])]),
      (''A'', [(1, [exDep ''D'' (0, None)])]),
      (''B'', [(1, [])]),
      (''C'', [(1, [])])]"

definition threeRoot :: "(nat, range) ProjectInfo" where
  "threeRoot =
     exInfo (exAtom ''R'' 1) [exDep ''A'' (0, None), exDep ''B'' (0, None), exDep ''C'' (0, None)]"

definition threeInit :: "(nat, range) solver" where
  "threeInit = SolveInit (NewSolver (tableManager threeTable)) threeRoot []"

definition threeSeeded :: "(nat, range) solver" where
  "threeSeeded = (case selectVersion threeInit (pa threeRoot) of Inl p \<Rightarrow> threeInit | Inr s \<Rightarrow> s)"

definition threeSelected :: "(nat, range) solver" where
  "threeSelected =
     (case selectVersion threeSeeded (exAtom ''A'' 1) of Inl p \<Rightarrow> threeSeeded | Inr s \<Rightarrow> s)"

text \<open>\<^verbatim>\<open>selectVersion(A); unselectLast()\<close>.\<close>

definition selectThenUnselect :: "('v, 'c) solver \<Rightarrow> 'v ProjectAtom \<Rightarrow> panic + ('v, 'c) solver" where
  "selectThenUnselect s a =
     (case selectVersion s a of
        Inl p \<Rightarrow> Inl p
      | Inr s1 \<Rightarrow> unselectLast s1)"

lemma threeSelected_eq: "selectVersion threeSeeded (exAtom ''A'' 1) = Inr threeSelected"
proof -
  have "case selectVersion threeSeeded (exAtom ''A'' 1) of Inl p \<Rightarrow> False | Inr s \<Rightarrow> True"
    by code_simp
  then show ?thesis
    unfolding threeSelected_def
    by (cases "selectVersion threeSeeded (exAtom ''A'' 1)") auto
qed

theorem select_unselect_inverse_witness:
  "Name (exAtom ''A'' 1) \<in> set (unsel threeSeeded) \<and>
   (\<exists>s2 ds. unselectLast threeSelected = Inr s2 \<and>
            getDependenciesOf threeSeeded (exAtom ''A'' 1) = Inr ds \<and>
            projects (sel s2) = projects (sel threeSeeded) \<and>
            (\<forall>n. getDependenciesOn (sel s2) n = getDependenciesOn (sel threeSeeded) n) \<and>
            dom (deps (sel s2)) = dom (deps (sel threeSeeded)) \<union> pdName ` set ds \<and>
            mset (unsel s2) = mset (unsel threeSeeded) \<and>
            frontierOnly threeSeeded s2)"
proof -
  have i: "Name (exAtom ''A'' 1) \<in> set (unsel threeSeeded)"
    by code_simp
  from select_unselect_inverse [OF threeSelected_eq] i show ?thesis
    by simp
qed

text \<open>
  C4 as stated fails. Committing and retracting A at 1 in the seeded state leaves the key D
  in \<open>deps\<close> (with no edges) where there was none. Committing and retracting B at 1
  moves B to the end of the frontier slice. And in the state before seeding, where the
  frontier is empty, committing and retracting the root leaves the root on the frontier.
\<close>

theorem select_unselect_not_identical:
  "deps (sel threeSeeded) ''D'' = None \<and>
   map_sum id (\<lambda>s. deps (sel s) ''D'') (selectThenUnselect threeSeeded (exAtom ''A'' 1)) = Inr (Some []) \<and>
   unsel threeSeeded = [''A'', ''B'', ''C''] \<and>
   map_sum id unsel (selectThenUnselect threeSeeded (exAtom ''B'' 1)) = Inr [''A'', ''C'', ''B''] \<and>
   unsel threeInit = [] \<and>
   map_sum id unsel (selectThenUnselect threeInit (exAtom ''R'' 1)) = Inr [''R'']"
  by code_simp

section \<open>What the result of Solve depends on\<close>

text \<open>
  The attempts counter is written and never read: running any part of the solver from a
  state with another counter gives the same outcome with the other counter. The lemmas
  below say so function by function.
\<close>

lemma attempts_out:
  "sel_update f (attempts_update g s) = attempts_update g (sel_update f s)"
  "unsel_update f' (attempts_update g s) = attempts_update g (unsel_update f' s)"
  "versions_update f'' (attempts_update g s) = attempts_update g (versions_update f'' s)"
  "mem_update h (attempts_update g s) = attempts_update g (mem_update h s)"
  "nextp_update h' (attempts_update g s) = attempts_update g (nextp_update h' s)"
  by simp_all

lemma up_attempts:
  "up (s\<lparr>attempts := k\<rparr>) j = map_sum id (\<lambda>s'. s'\<lparr>attempts := k\<rparr>) (up s j)"
proof (induction s j rule: up.induct)
  case (1 s j)
  let ?i = "parent j"
  have c: "unselectedComparator (s\<lparr>attempts := k\<rparr>) j ?i = unselectedComparator s j ?i"
    by (simp add: unselectedComparator_def compareNames_def)
  show ?case
  proof (cases "?i = j")
    case True
    then show ?thesis by (simp add: up.simps [of s j] up.simps [of "s\<lparr>attempts := k\<rparr>" j])
  next
    case False
    show ?thesis
    proof (cases "unselectedComparator s j ?i")
      case (Inl p)
      with False c show ?thesis by (simp add: up.simps [of s j] up.simps [of "s\<lparr>attempts := k\<rparr>" j])
    next
      case (Inr b)
      show ?thesis
      proof (cases b)
        case True
        have "Swap (s\<lparr>attempts := k\<rparr>) ?i j = (Swap s ?i j)\<lparr>attempts := k\<rparr>"
          by (simp add: Swap_def attempts_out)
        with "1.IH" [OF refl False Inr] True False Inr c show ?thesis
          by (simp add: up.simps [of s j] up.simps [of "s\<lparr>attempts := k\<rparr>" j] Let_def)
      next
        case b: False
        with False Inr c show ?thesis by (simp add: up.simps [of s j] up.simps [of "s\<lparr>attempts := k\<rparr>" j])
      qed
    qed
  qed
qed

lemma heapPush_attempts:
  "heapPush (s\<lparr>attempts := k\<rparr>) n = map_sum id (\<lambda>s'. s'\<lparr>attempts := k\<rparr>) (heapPush s n)"
  using up_attempts [where s = "s\<lparr>unsel := unsel s @ [n]\<rparr>" and k = k and j = "length (unsel s)"]
  by (simp add: heapPush_def attempts_out)

lemma fail_attempts: "fail (s\<lparr>attempts := k\<rparr>) n = (fail s n)\<lparr>attempts := k\<rparr>"
  by (simp add: fail_def attempts_out)

lemma foldl_fail_attempts: "foldl fail (s\<lparr>attempts := k\<rparr>) ns = (foldl fail s ns)\<lparr>attempts := k\<rparr>"
  by (induction ns arbitrary: s) (simp_all add: fail_attempts)

lemma getDependenciesOf_attempts: "getDependenciesOf (s\<lparr>attempts := k\<rparr>) a = getDependenciesOf s a"
  by (rule getDependenciesOf_cong) simp_all

lemma depAdmissible_attempts: "depAdmissible X (s\<lparr>attempts := k\<rparr>) d = depAdmissible X s d"
  by (simp add: depAdmissible_def)

lemma depFailure_attempts:
  "depFailure X (s\<lparr>attempts := k\<rparr>) a d = map_prod id (\<lambda>s'. s'\<lparr>attempts := k\<rparr>) (depFailure X s a d)"
  by (simp add: depFailure_def Let_def foldl_fail_attempts fail_attempts)

lemma satisfiableSpec_attempts:
  "satisfiableSpec X (s\<lparr>attempts := k\<rparr>) a = map_prod id (\<lambda>s'. s'\<lparr>attempts := k\<rparr>) (satisfiableSpec X s a)"
  by (simp add: satisfiableSpec_def Let_def foldl_fail_attempts getDependenciesOf_attempts
                depAdmissible_attempts depFailure_attempts
           split: sum.splits option.splits)

lemma satisfiable_eq_spec:
  "satisfiable X s a =
     (if emptyProjectAtom = a then Inl (Panic ''canary - checking version of empty ProjectAtom'')
      else Inr (satisfiableSpec X s a))"
  by (auto simp: satisfiable_def satisfiableSpec_def Let_def failparentLoop_eq depsLoop_eq
           split: sum.splits)

lemma satisfiable_attempts:
  "satisfiable X (s\<lparr>attempts := k\<rparr>) a =
     map_sum id (map_prod id (\<lambda>s'. s'\<lparr>attempts := k\<rparr>)) (satisfiable X s a)"
  by (simp add: satisfiable_eq_spec satisfiableSpec_attempts)

lemma selectLoop_attempts:
  "selectLoop a ds (s\<lparr>attempts := k\<rparr>) = map_sum id (\<lambda>s'. s'\<lparr>attempts := k\<rparr>) (selectLoop a ds s)"
proof (induction ds arbitrary: s)
  case Nil
  show ?case by simp
next
  case (Cons d ds)
  let ?s1 = "s\<lparr>sel := (sel s)\<lparr>deps := (deps (sel s))(pdName d \<mapsto>
               getDependenciesOn (sel s) (pdName d) @ [\<lparr>Depender = a, Dep = d\<rparr>])\<rparr>\<rparr>"
  show ?case
  proof (cases "getDependenciesOn (sel s) (pdName d) = []")
    case True
    then show ?thesis
      using heapPush_attempts [where s = ?s1 and k = k and n = "pdName d"] Cons.IH
      by (cases "heapPush ?s1 (pdName d)") (simp_all add: Let_def attempts_out)
  next
    case False
    then show ?thesis
      using Cons.IH [where s = ?s1] by (simp add: Let_def attempts_out)
  qed
qed

lemma selectVersion_attempts:
  "selectVersion (s\<lparr>attempts := k\<rparr>) a = map_sum id (\<lambda>s'. s'\<lparr>attempts := k\<rparr>) (selectVersion s a)"
  using selectLoop_attempts [where a = a and k = k and s = "s\<lparr>unsel := remove (Name a) (unsel s),
            sel := (sel s)\<lparr>projects := projects (sel s) @ [a]\<rparr>\<rparr>"]
  by (simp add: selectVersion_def Let_def getDependenciesOf_def attempts_out split: prod.splits option.splits)

lemma unselectLoop_attempts:
  "unselectLoop ds (s\<lparr>attempts := k\<rparr>) = map_sum id (\<lambda>s'. s'\<lparr>attempts := k\<rparr>) (unselectLoop ds s)"
proof (induction ds arbitrary: s)
  case Nil
  show ?case by simp
next
  case (Cons d ds)
  let ?l = "butlast (getDependenciesOn (sel s) (pdName d))"
  let ?s1 = "s\<lparr>sel := (sel s)\<lparr>deps := (deps (sel s))(pdName d \<mapsto> ?l)\<rparr>\<rparr>"
  show ?case
  proof (cases "getDependenciesOn (sel s) (pdName d) = []")
    case True
    then show ?thesis by simp
  next
    case ne: False
    show ?thesis
    proof (cases "?l = []")
      case True
      with ne Cons.IH [where s = "?s1\<lparr>unsel := remove (pdName d) (unsel ?s1)\<rparr>"] show ?thesis
        by (simp add: Let_def attempts_out)
    next
      case False
      with ne Cons.IH [where s = ?s1] show ?thesis
        by (simp add: Let_def attempts_out)
    qed
  qed
qed

lemma unselectLast_attempts:
  "unselectLast (s\<lparr>attempts := k\<rparr>) = map_sum id (\<lambda>s'. s'\<lparr>attempts := k\<rparr>) (unselectLast s)"
proof (cases "projects (sel s) = []")
  case True
  then show ?thesis by (simp add: unselectLast_def)
next
  case False
  let ?s1 = "s\<lparr>sel := (sel s)\<lparr>projects := butlast (projects (sel s))\<rparr>\<rparr>"
  let ?a = "last (projects (sel s))"
  show ?thesis
  proof (cases "heapPush ?s1 (Name ?a)")
    case (Inl p)
    with False heapPush_attempts [where s = ?s1 and k = k and n = "Name ?a"] show ?thesis
      by (simp add: unselectLast_def Let_def attempts_out)
  next
    case (Inr s2)
    with False heapPush_attempts [where s = ?s1 and k = k and n = "Name ?a"] show ?thesis
      by (cases "getDependenciesOf s2 ?a")
         (simp_all add: unselectLast_def Let_def getDependenciesOf_attempts unselectLoop_attempts attempts_out)
  qed
qed

lemma fvvLoop_attempts:
  "fvvLoop X (s\<lparr>attempts := k\<rparr>) q =
     map_sum id (map_prod id (\<lambda>s'. s'\<lparr>attempts := k\<rparr>)) (fvvLoop X s q)"
proof (induction X s q rule: fvvLoop.induct)
  case (1 X s q)
  let ?atom = "\<lparr>Name = ref (mem s q), Version = current (mem s q)\<rparr>"
  note sa = satisfiable_attempts [where X = X and s = s and k = k and a = ?atom]
  show ?case
  proof (cases "satisfiable X s ?atom")
    case (Inl p)
    with sa show ?thesis by (simp add: fvvLoop.simps [of X s q] fvvLoop.simps [of X "s\<lparr>attempts := k\<rparr>" q])
  next
    case (Inr r)
    obtain e s1 where r: "r = (e, s1)" by (cases r)
    show ?thesis
    proof (cases e)
      case None
      with Inr r sa show ?thesis by (simp add: fvvLoop.simps [of X s q] fvvLoop.simps [of X "s\<lparr>attempts := k\<rparr>" q])
    next
      case (Some err)
      obtain q' adverr where adv: "advance (mem s1 q) (Some err) = (q', adverr)"
        by (cases "advance (mem s1 q) (Some err)")
      let ?s2 = "s1\<lparr>mem := (mem s1)(q := q')\<rparr>"
      show ?thesis
      proof (cases "adverr \<noteq> None \<or> isExhausted (mem ?s2 q)")
        case True
        with Inr r Some adv sa show ?thesis
          by (auto simp: fvvLoop.simps [of X s q] fvvLoop.simps [of X "s\<lparr>attempts := k\<rparr>" q] Let_def attempts_out)
      next
        case False
        from False have c: "\<not> adverr \<noteq> None" "\<not> isExhausted (mem ?s2 q)" by auto
        note ih = "1.IH" [OF refl Inr r [symmetric] Some adv [symmetric] refl c]
        from False Inr r Some adv sa show ?thesis
          by (simp add: fvvLoop.simps [of X s q] fvvLoop.simps [of X "s\<lparr>attempts := k\<rparr>" q] Let_def attempts_out ih)
      qed
    qed
  qed
qed

lemma findValidVersion_attempts:
  "findValidVersion X (s\<lparr>attempts := k\<rparr>) q =
     map_sum id (map_prod id (\<lambda>s'. s'\<lparr>attempts := k\<rparr>)) (findValidVersion X s q)"
proof (cases "fvvLoop X s q")
  case (Inl p)
  then show ?thesis by (simp add: findValidVersion_def fvvLoop_attempts)
next
  case (Inr r)
  obtain b s1 where r: "r = (b, s1)" by (cases r)
  with Inr show ?thesis
    by (cases b; cases "getDependenciesOn (sel s1) (ref (mem s1 q))")
       (simp_all add: findValidVersion_def fvvLoop_attempts fail_attempts Let_def)
qed

lemma getLockVersionIfValid_attempts:
  "getLockVersionIfValid X (s\<lparr>attempts := k\<rparr>) r = getLockVersionIfValid X s r"
  by (simp add: getLockVersionIfValid_def Let_def split: option.splits)

lemma alloc_attempts:
  "alloc (s\<lparr>attempts := k\<rparr>) q0 = map_prod id (\<lambda>s'. s'\<lparr>attempts := k\<rparr>) (alloc s q0)"
  by (simp add: alloc_def attempts_out)

lemma createVersionQueueLocked_attempts:
  "createVersionQueueLocked X (s\<lparr>attempts := k\<rparr>) r =
     map_sum id (map_prod id (\<lambda>s'. s'\<lparr>attempts := k\<rparr>)) (createVersionQueueLocked X s r)"
proof (cases "newVersionQueue X r (getLockVersionIfValid X s r) (sm s)")
  case (Inl err)
  then show ?thesis
    by (simp add: createVersionQueueLocked_def getLockVersionIfValid_attempts)
next
  case (Inr q0)
  obtain q s1 where a: "alloc s q0 = (q, s1)" by (cases "alloc s q0")
  with Inr show ?thesis
    by (cases "findValidVersion X s1 q")
       (auto simp: createVersionQueueLocked_def getLockVersionIfValid_attempts alloc_attempts
                   findValidVersion_attempts)
qed

lemma createVersionQueue_attempts:
  "createVersionQueue X (s\<lparr>attempts := k\<rparr>) r =
     map_sum id (map_prod id (\<lambda>s'. s'\<lparr>attempts := k\<rparr>)) (createVersionQueue X s r)"
  by (auto simp: createVersionQueue_def createVersionQueueLocked_attempts alloc_attempts
           split: sum.splits prod.splits option.splits)

lemma backtrackPop_attempts:
  "backtrackPop (s\<lparr>attempts := k\<rparr>) =
     map_sum id (map_prod id (\<lambda>s'. s'\<lparr>attempts := k\<rparr>)) (backtrackPop s)"
proof (induction s rule: backtrackPop.induct)
  case (1 s)
  show ?case
  proof (cases "length (versions s) = 0 \<or> failed (mem s (last (versions s)))")
    case True
    then show ?thesis
      by (auto simp: backtrackPop.simps [of s] backtrackPop.simps [of "s\<lparr>attempts := k\<rparr>"])
  next
    case False
    let ?s0 = "s\<lparr>versions := butlast (versions s)\<rparr>"
    note ua = unselectLast_attempts [where s = ?s0 and k = k]
    show ?thesis
    proof (cases "unselectLast ?s0")
      case (Inl p)
      with False ua show ?thesis
        by (simp add: backtrackPop.simps [of s] backtrackPop.simps [of "s\<lparr>attempts := k\<rparr>"] attempts_out)
    next
      case (Inr s1)
      with False ua "1.IH" [OF _ _ Inr] show ?thesis
        by (simp add: backtrackPop.simps [of s] backtrackPop.simps [of "s\<lparr>attempts := k\<rparr>"] attempts_out)
    qed
  qed
qed

lemma backtrackLoop_attempts:
  "backtrackLoop X (s\<lparr>attempts := k\<rparr>) =
     map_sum id (map_prod id (\<lambda>s'. s'\<lparr>attempts := k\<rparr>)) (backtrackLoop X s)"
proof (induction X s rule: backtrackLoop.induct)
  case (1 X s)
  note unf = backtrackLoop.simps [of X s] backtrackLoop.simps [of X "s\<lparr>attempts := k\<rparr>"]
  note pa = backtrackPop_attempts [where s = s and k = k]
  show ?case
  proof (cases "backtrackPop s")
    case (Inl p)
    with pa show ?thesis by (simp add: unf)
  next
    case (Inr r)
    obtain b1 s1 where r: "r = (b1, s1)" by (cases r)
    show ?thesis
    proof (cases b1)
      case False
      with Inr r pa show ?thesis by (simp add: unf)
    next
      case True
      then have bt: "b1 = True" by simp
      let ?q = "last (versions s1)"
      note ua = unselectLast_attempts [where s = s1 and k = k]
      show ?thesis
      proof (cases "unselectLast s1")
        case (Inl p)
        with True Inr r pa ua show ?thesis by (simp add: unf Let_def)
      next
        case u: (Inr s2)
        obtain q' adverr where adv: "advance (mem s2 ?q) None = (q', adverr)"
          by (cases "advance (mem s2 ?q) None")
        let ?s3 = "s2\<lparr>mem := (mem s2)(?q := q')\<rparr>"
        show ?thesis
        proof (cases "adverr = None \<and> \<not> isExhausted (mem ?s3 ?q)")
          case False
          note ih = "1.IH"(2) [OF Inr r [symmetric] bt refl u adv [symmetric] refl False]
          from False have cond: "(adverr = None \<and> \<not> isExhausted q') = False" by simp
          from ih True Inr r pa ua u adv show ?thesis
            by (simp add: unf Let_def attempts_out cond)
        next
          case ok: True
          then have cond: "(adverr = None \<and> \<not> isExhausted q') = True" by simp
          note fa = findValidVersion_attempts [where X = X and s = ?s3 and k = k and q = ?q]
          show ?thesis
          proof (cases "findValidVersion X ?s3 ?q")
            case (Inl p)
            with True Inr r pa ua u adv fa show ?thesis
              by (simp add: unf Let_def attempts_out cond)
          next
            case f: (Inr r4)
            obtain e s4 where r4: "r4 = (e, s4)" by (cases r4)
            show ?thesis
            proof (cases e)
              case None
              let ?atom = "\<lparr>Name = ref (mem s4 ?q), Version = current (mem s4 ?q)\<rparr>"
              note sva = selectVersion_attempts [where s = s4 and k = k and a = ?atom]
              from None True Inr r pa ua u adv fa f r4 sva show ?thesis
                by (cases "selectVersion s4 ?atom") (simp_all add: unf Let_def attempts_out cond)
            next
              case (Some err)
              note ih = "1.IH"(1) [OF Inr r [symmetric] bt refl u adv [symmetric] refl ok f r4 [symmetric] Some]
              from ih Some True Inr r pa ua u adv fa f r4 show ?thesis
                by (simp add: unf Let_def attempts_out cond)
            qed
          qed
        qed
      qed
    qed
  qed
qed

text \<open>Two states that differ in the attempts counter at most.\<close>

definition attemptsApart :: "('v, 'c) solver \<Rightarrow> ('v, 'c) solver \<Rightarrow> bool" where
  "attemptsApart s t = (t = s\<lparr>attempts := attempts t\<rparr>)"

lemma attemptsApartI: "attemptsApart s (s\<lparr>attempts := k\<rparr>)"
  by (simp add: attemptsApart_def)

lemma attemptsApart_update: "attemptsApart s t \<Longrightarrow> attemptsApart (s\<lparr>attempts := j\<rparr>) (t\<lparr>attempts := k\<rparr>)"
  by (cases s, cases t) (simp add: attemptsApart_def)

lemma backtrack_attemptsApart:
  assumes "attemptsApart s t"
  shows "rel_sum (=) (rel_prod (=) attemptsApart) (backtrack X s) (backtrack X t)"
proof -
  from assms obtain k where t: "t = s\<lparr>attempts := k\<rparr>"
    by (auto simp: attemptsApart_def)
  note la = backtrackLoop_attempts [where X = X and s = s and k = k]
  show ?thesis
  proof (cases "backtrackLoop X s")
    case (Inl p)
    with la show ?thesis unfolding t
      by (simp add: backtrack_def attemptsApartI)
  next
    case (Inr r)
    obtain b s1 where r: "r = (b, s1)" by (cases r)
    have "attemptsApart (s1\<lparr>attempts := attempts s1 + 1\<rparr>) (s1\<lparr>attempts := k, attempts := k + 1\<rparr>)"
      by (simp add: attemptsApart_def)
    with Inr r la show ?thesis unfolding t
      by (cases b) (simp_all add: backtrack_def attemptsApartI)
  qed
qed

fun stepApart :: "('v, 'c) step \<Rightarrow> ('v, 'c) step \<Rightarrow> bool" where
  "stepApart (Continue s) (Continue t) = attemptsApart s t"
| "stepApart (Return ps e s) (Return ps' e' t) = (ps = ps' \<and> e = e' \<and> attemptsApart s t)"
| "stepApart _ _ = False"

lemma solveStep_attemptsApart:
  assumes "attemptsApart s t"
  shows "rel_sum (=) stepApart (solveStep X s) (solveStep X t)"
proof -
  from assms obtain k where t: "t = s\<lparr>attempts := k\<rparr>"
    by (auto simp: attemptsApart_def)
  have n: "nextUnselected t = nextUnselected s"
    unfolding t by (simp add: nextUnselected_def)
  obtain r has where nu: "nextUnselected s = (r, has)" by (cases "nextUnselected s")
  note ca = createVersionQueue_attempts [where X = X and s = s and k = k and r = r]
  show ?thesis
  proof (cases has)
    case False
    with nu n show ?thesis
      unfolding t by (simp add: solveStep_def attemptsApartI)
  next
    case True
    show ?thesis
    proof (cases "createVersionQueue X s r")
      case (Inl p)
      with True nu n ca show ?thesis
        unfolding t by (simp add: solveStep_def)
    next
      case (Inr res)
      obtain queue err s1 where res: "res = ((queue, err), s1)" by (cases res) auto
      show ?thesis
      proof (cases err)
        case (Some e)
        from backtrack_attemptsApart [OF attemptsApartI, of X s1 k]
        have "rel_sum (=) (rel_prod (=) attemptsApart) (backtrack X s1) (backtrack X (s1\<lparr>attempts := k\<rparr>))" .
        with Some True nu n ca Inr res show ?thesis
          unfolding t
          by (cases "backtrack X s1"; cases "backtrack X (s1\<lparr>attempts := k\<rparr>)"; cases queue)
             (auto simp: solveStep_def split: bool.splits)
      next
        case None
        show ?thesis
        proof (cases queue)
          case qn: None
          with None True nu n ca Inr res show ?thesis
            unfolding t by (simp add: solveStep_def)
        next
          case (Some q)
          let ?atom = "\<lparr>Name = ref (mem s1 q), Version = current (mem s1 q)\<rparr>"
          note sva = selectVersion_attempts [where s = s1 and k = k and a = ?atom]
          from Some None True nu n ca Inr res sva show ?thesis
            unfolding t
            by (cases "selectVersion s1 ?atom")
               (simp_all add: solveStep_def attempts_out attemptsApartI)
        qed
      qed
    qed
  qed
qed

lemma solve_attemptsApart:
  "attemptsApart s t \<Longrightarrow>
   rel_option (rel_sum (=) (rel_prod (=) attemptsApart)) (solve X n s) (solve X n t)"
proof (induction n arbitrary: s t)
  case 0
  show ?case by simp
next
  case (Suc n)
  from solveStep_attemptsApart [OF Suc.prems, of X] Suc.IH show ?case
    by (cases "solveStep X s"; cases "solveStep X t")
       (auto split: step.splits elim: stepApart.elims)
qed

lemma SolveInit_attemptsApart:
  assumes "sm t = sm s" and "latest t = latest s" and "rlm t = rlm s"
    and "versions t = versions s" and "mem t = mem s" and "nextp t = nextp s"
  shows "SolveInit t root upg = (SolveInit s root upg)\<lparr>attempts := attempts t\<rparr>"
  using assms by (cases s, cases t) (simp add: SolveInit_def Let_def split: option.splits)

text \<open>
  The Result of \<^verbatim>\<open>Solve\<close> does not depend on the selection, the frontier, the root or the
  attempts counter the solver value holds when \<^verbatim>\<open>Solve\<close> is entered: two runs from solver
  values that agree on the rest give identical Results.
\<close>

lemma Solve_result_determined:
  assumes "sm t = sm s" and "latest t = latest s" and "rlm t = rlm s"
    and "versions t = versions s" and "mem t = mem s" and "nextp t = nextp s"
  shows "map_option (map_sum id fst) (Solve X n t root upg) =
         map_option (map_sum id fst) (Solve X n s root upg)"
proof -
  let ?s1 = "SolveInit s root upg"
  let ?k = "attempts t"
  have i: "SolveInit t root upg = ?s1\<lparr>attempts := ?k\<rparr>"
    using assms by (rule SolveInit_attemptsApart)
  note sva = selectVersion_attempts [where s = ?s1 and k = ?k and a = "pa (rp ?s1)"]
  show ?thesis
  proof (cases "selectVersion ?s1 (pa (rp ?s1))")
    case (Inl p)
    with sva show ?thesis by (simp add: Solve_def i Let_def)
  next
    case (Inr s2)
    from solve_attemptsApart [OF attemptsApartI, of X n s2 ?k]
    have "rel_option (rel_sum (=) (rel_prod (=) attemptsApart))
            (solve X n s2) (solve X n (s2\<lparr>attempts := ?k\<rparr>))" .
    then have "map_option (map_sum id fst) (solve X n (s2\<lparr>attempts := ?k\<rparr>)) =
               map_option (map_sum id fst) (solve X n s2)"
      by (cases "solve X n s2"; cases "solve X n (s2\<lparr>attempts := ?k\<rparr>)")
         (auto elim!: rel_sum.cases)
    with Inr sva show ?thesis
      by (cases "solve X n s2"; cases "solve X n (s2\<lparr>attempts := ?k\<rparr>)")
         (auto simp: Solve_def i Let_def split: sum.splits prod.splits)
  qed
qed

definition usedSolver :: "(nat, range) solver" where
  "usedSolver =
     (NewSolver (tableManager backtrackTable))
       \<lparr>sel := sel afterFirstRun, unsel := [''Z''], rp := upgradeRoot, attempts := 7\<rparr>"

lemma Solve_result_determined_example:
  "attempts usedSolver = 7 \<and> unsel usedSolver = [''Z''] \<and>
   map_option (map_sum id fst) (Solve ranges 10 usedSolver backtrackRoot []) =
     map_option (map_sum id fst) (Solve ranges 10 (NewSolver (tableManager backtrackTable)) backtrackRoot []) \<and>
   map_option (map_sum id fst) (Solve ranges 10 usedSolver backtrackRoot []) =
     Some (Inr \<lparr>Projects = [exAtom ''R'' 1, exAtom ''A'' 1], SolveFailure = None\<rparr>)"
proof -
  have h: "sm usedSolver = sm (NewSolver (tableManager backtrackTable))"
          "latest usedSolver = latest (NewSolver (tableManager backtrackTable))"
          "rlm usedSolver = rlm (NewSolver (tableManager backtrackTable))"
          "versions usedSolver = versions (NewSolver (tableManager backtrackTable))"
          "mem usedSolver = mem (NewSolver (tableManager backtrackTable))"
          "nextp usedSolver = nextp (NewSolver (tableManager backtrackTable))"
    by (simp_all add: usedSolver_def)
  have v: "attempts usedSolver = 7" "unsel usedSolver = [''Z'']"
    by (simp_all add: usedSolver_def)
  have r: "map_option (map_sum id fst)
             (Solve ranges 10 (NewSolver (tableManager backtrackTable)) backtrackRoot []) =
           Some (Inr \<lparr>Projects = [exAtom ''R'' 1, exAtom ''A'' 1], SolveFailure = None\<rparr>)"
    by code_simp
  note e = Solve_result_determined [OF h, of ranges 10 backtrackRoot "[]"]
  show ?thesis
    by (intro conjI) (rule v e trans [OF e r])+
qed

definition secondRun :: "(panic + ((nat, range) Result \<times> (nat, range) solver)) option" where
  "secondRun = Solve ranges 10 afterFirstRun backtrackRoot []"

text \<open>
  C9. Two runs of \<^verbatim>\<open>Solve\<close> on the same root and the same names to upgrade, with the same
  source manager, do not always give the same Result. The first run of the backtracking
  scenario returns R and A at 1; the second run, on the solver the first has left, fails
  with NoVersion for B: \<^verbatim>\<open>Solve\<close> does not empty \<^verbatim>\<open>s.versions\<close>, \<^verbatim>\<open>fail\<close> marks the queue the
  first run left for A, and the backtrack of the second run pops down to that queue.
\<close>

theorem Solve_twice_differs:
  "map_option (map_sum id fst) firstRun =
     Some (Inr \<lparr>Projects = [exAtom ''R'' 1, exAtom ''A'' 1], SolveFailure = None\<rparr>) \<and>
   map_option (map_sum id fst) secondRun =
     Some (Inr \<lparr>Projects = [],
                SolveFailure = Some (NoVersion ''B''
                  [VersionNotAllowed (exAtom ''B'' 1)
                     [\<lparr>Depender = exAtom ''A'' 2, Dep = exDep ''B'' (2, None)\<rparr>] (2, None)])\<rparr>)"
  by code_simp

section \<open>The frontier and the selection\<close>

lemma selectVersion_closed:
  assumes "selectVersion s a = Inr s'"
  shows "\<exists>ds. getDependenciesOf s a = Inr ds \<and>
           (\<forall>n. edgesOn s' n = edgesOn s n @ newEdges a ds n) \<and>
           mset (unsel s') =
             mset (remove1 (Name a) (unsel s)) + mset_set {n \<in> pdName ` set ds. edgesOn s n = []} \<and>
           projects (sel s') = projects (sel s) @ [a] \<and> frontierOnly s s'"
proof -
  let ?sa = "s\<lparr>unsel := remove (Name a) (unsel s), sel := (sel s)\<lparr>projects := projects (sel s) @ [a]\<rparr>\<rparr>"
  have ga: "getDependenciesOf ?sa a = getDependenciesOf s a"
    by (rule getDependenciesOf_cong) simp_all
  from assms obtain ds where ds: "getDependenciesOf s a = Inr ds" and sl: "selectLoop a ds ?sa = Inr s'"
    by (cases "getDependenciesOf s a") (auto simp: selectVersion_def Let_def ga)
  from selectLoop_closed [of a ds ?sa] sl ds show ?thesis
    by (auto simp: frontierOnly_def getDependenciesOn_def remove_def)
qed

text \<open>
  The dependencies an atom declares (none when they cannot be fetched), and the edges a
  list of committed atoms puts on a name, in commit order.
\<close>

definition declared :: "('v, 'c) solver \<Rightarrow> 'v ProjectAtom \<Rightarrow> 'c ProjectDep list" where
  "declared s a = (case getDependenciesOf s a of Inl err \<Rightarrow> [] | Inr ds \<Rightarrow> ds)"

definition edgesFrom :: "('v, 'c) solver \<Rightarrow> 'v ProjectAtom list \<Rightarrow> ProjectName \<Rightarrow> ('v, 'c) Dependency list" where
  "edgesFrom s ps n = concat (map (\<lambda>p. newEdges p (declared s p) n) ps)"

definition noRootDependency :: "('v, 'c) solver \<Rightarrow> bool" where
  "noRootDependency s = (\<forall>a. Name (pa (rp s)) \<notin> pdName ` set (declared s a))"

definition frontierSet :: "('v, 'c) solver \<Rightarrow> ProjectName set" where
  "frontierSet s = {n. edgesOn s n \<noteq> [] \<and> n \<notin> Name ` set (projects (sel s))}"

text \<open>
  The invariant of the selection and the frontier: the root is the first committed atom,
  committed names are distinct, the edges are those the committed atoms declare, every
  committed atom but the first has an edge from an earlier one, and the frontier holds,
  once each, the names with an edge that are not committed.
\<close>

definition selInv :: "('v, 'c) solver \<Rightarrow> bool" where
  "selInv s =
     (projects (sel s) \<noteq> [] \<and> Name (hd (projects (sel s))) = Name (pa (rp s)) \<and>
      distinct (map Name (projects (sel s))) \<and>
      (\<forall>n. edgesOn s n = edgesFrom s (projects (sel s)) n) \<and>
      (\<forall>ps p qs. projects (sel s) = ps @ p # qs \<and> ps \<noteq> [] \<longrightarrow> edgesFrom s ps (Name p) \<noteq> []) \<and>
      mset (unsel s) = mset_set (frontierSet s))"

lemma selInvI:
  assumes "projects (sel s) \<noteq> []" and "Name (hd (projects (sel s))) = Name (pa (rp s))"
    and "distinct (map Name (projects (sel s)))"
    and "\<And>n. edgesOn s n = edgesFrom s (projects (sel s)) n"
    and "\<And>ps p qs. projects (sel s) = ps @ p # qs \<Longrightarrow> ps \<noteq> [] \<Longrightarrow> edgesFrom s ps (Name p) \<noteq> []"
    and "mset (unsel s) = mset_set (frontierSet s)"
  shows "selInv s"
  unfolding selInv_def using assms by blast

lemma selInv_nonempty: "selInv s \<Longrightarrow> projects (sel s) \<noteq> []"
  unfolding selInv_def by (elim conjE)

lemma selInv_root: "selInv s \<Longrightarrow> Name (hd (projects (sel s))) = Name (pa (rp s))"
  unfolding selInv_def by (elim conjE)

lemma selInv_distinct: "selInv s \<Longrightarrow> distinct (map Name (projects (sel s)))"
  unfolding selInv_def by (elim conjE)

lemma selInv_edges: "selInv s \<Longrightarrow> edgesOn s n = edgesFrom s (projects (sel s)) n"
  unfolding selInv_def by (elim conjE) (erule allE)

lemma selInv_earlier:
  "selInv s \<Longrightarrow> projects (sel s) = ps @ p # qs \<Longrightarrow> ps \<noteq> [] \<Longrightarrow> edgesFrom s ps (Name p) \<noteq> []"
  unfolding selInv_def by blast

lemma selInv_mset: "selInv s \<Longrightarrow> mset (unsel s) = mset_set (frontierSet s)"
  unfolding selInv_def by (elim conjE)

lemma declared_cong:
  assumes "sm s' = sm s" and "rp s' = rp s"
  shows "declared s' = declared s"
  by (rule ext) (simp add: declared_def getDependenciesOf_cong [OF assms])

lemma edgesFrom_cong:
  assumes "sm s' = sm s" and "rp s' = rp s"
  shows "edgesFrom s' = edgesFrom s"
  by (intro ext) (simp add: edgesFrom_def declared_cong [OF assms])

lemma selInv_cong:
  assumes "sm s' = sm s" and "rp s' = rp s" and "sel s' = sel s" and "unsel s' = unsel s"
  shows "selInv s' = selInv s"
  by (simp add: selInv_def frontierSet_def edgesFrom_cong [OF assms(1,2)] assms)

lemma noRootDependency_cong:
  assumes "sm s' = sm s" and "rp s' = rp s"
  shows "noRootDependency s' = noRootDependency s"
  by (simp add: noRootDependency_def declared_cong [OF assms] assms)

lemma edgesFrom_append: "edgesFrom s (ps @ qs) n = edgesFrom s ps n @ edgesFrom s qs n"
  by (simp add: edgesFrom_def)

lemma edgesFrom_single: "edgesFrom s [p] n = newEdges p (declared s p) n"
  by (simp add: edgesFrom_def)

lemma newEdges_empty: "(newEdges a ds n = []) = (n \<notin> pdName ` set ds)"
  by (auto simp: newEdges_def filter_empty_conv)

lemma edgesFrom_empty:
  "(edgesFrom s ps n = []) = (\<forall>p \<in> set ps. n \<notin> pdName ` set (declared s p))"
  by (auto simp: edgesFrom_def newEdges_empty)

lemma finite_edged: "finite {n. edgesFrom s ps n \<noteq> []}"
proof -
  have "{n. edgesFrom s ps n \<noteq> []} \<subseteq> (\<Union>p \<in> set ps. pdName ` set (declared s p))"
    by (auto simp: edgesFrom_empty)
  then show ?thesis by (rule finite_subset) simp
qed

lemma finite_frontierSet: "selInv s \<Longrightarrow> finite (frontierSet s)"
proof -
  assume "selInv s"
  then have "frontierSet s \<subseteq> {n. edgesFrom s (projects (sel s)) n \<noteq> []}"
    by (auto simp: selInv_edges frontierSet_def)
  then show ?thesis by (rule finite_subset) (rule finite_edged)
qed

lemma selInv_frontier: "selInv s \<Longrightarrow> set (unsel s) = frontierSet s \<and> distinct (unsel s)"
proof -
  assume i: "selInv s"
  then have m: "mset (unsel s) = mset_set (frontierSet s)" by (rule selInv_mset)
  note fin = finite_frontierSet [OF i]
  have "set (unsel s) = set_mset (mset (unsel s))" by simp
  also have "\<dots> = frontierSet s" unfolding m using fin by simp
  finally have st: "set (unsel s) = frontierSet s" .
  have "distinct (unsel s)"
    unfolding distinct_count_atmost_1 st unfolding m using fin by (simp add: count_mset_set')
  with st show ?thesis by simp
qed

text \<open>A committed name other than the root's has an edge; the root's has none.\<close>

lemma selInv_committed_edge:
  assumes "selInv s" and "p \<in> set (projects (sel s))" and "Name p \<noteq> Name (pa (rp s))"
  shows "edgesOn s (Name p) \<noteq> []"
proof -
  from assms(2) obtain ps qs where sp: "projects (sel s) = ps @ p # qs"
    by (auto simp: in_set_conv_decomp)
  have "ps \<noteq> []"
  proof
    assume "ps = []"
    with sp selInv_root [OF assms(1)] have "Name p = Name (pa (rp s))" by simp
    with assms(3) show False by simp
  qed
  with selInv_earlier [OF assms(1) sp] have "edgesFrom s ps (Name p) \<noteq> []" by simp
  then have "edgesFrom s (ps @ p # qs) (Name p) \<noteq> []" by (simp add: edgesFrom_append)
  with selInv_edges [OF assms(1)] sp show ?thesis by simp
qed

lemma selInv_root_no_edge:
  assumes "selInv s" and "noRootDependency s"
  shows "edgesOn s (Name (pa (rp s))) = []"
  using selInv_edges [OF assms(1)] assms(2) by (simp add: noRootDependency_def edgesFrom_empty)

lemma selInv_committed_not_declared:
  assumes "selInv s" and "noRootDependency s" and "p \<in> set (projects (sel s))"
    and "edgesOn s (Name p) = []"
  shows "Name p \<notin> pdName ` set (declared s a)"
proof (cases "Name p = Name (pa (rp s))")
  case True
  with assms(2) show ?thesis by (simp add: noRootDependency_def)
next
  case False
  from selInv_committed_edge [OF assms(1,3) False] assms(4) show ?thesis by simp
qed

lemma selectVersion_selInv:
  assumes i: "selInv s" and nr: "noRootDependency s" and f: "Name a \<in> set (unsel s)"
    and sv: "selectVersion s a = Inr s'"
  shows "selInv s'"
proof -
  let ?P = "projects (sel s)"
  let ?r = "Name a"
  from selectVersion_closed [OF sv] obtain ds where
    g: "getDependenciesOf s a = Inr ds" and
    e: "\<And>n. edgesOn s' n = edgesOn s n @ newEdges a ds n" and
    m: "mset (unsel s') = mset (remove1 ?r (unsel s)) + mset_set {n \<in> pdName ` set ds. edgesOn s n = []}" and
    p: "projects (sel s') = ?P @ [a]" and fr: "frontierOnly s s'"
    by blast
  from g have d: "declared s a = ds" by (simp add: declared_def)
  from fr have c: "sm s' = sm s" "rp s' = rp s" by (simp_all add: frontierOnly_def)
  note ef = edgesFrom_cong [OF c]
  from selInv_frontier [OF i] f have rf: "?r \<in> frontierSet s" by simp
  then have re: "edgesOn s ?r \<noteq> []" and rn: "?r \<notin> Name ` set ?P"
    by (simp_all add: frontierSet_def)
  note ne = selInv_nonempty [OF i]
  let ?D = "{n \<in> pdName ` set ds. edgesOn s n = []}"
  have fs: "frontierSet s' = (frontierSet s - {?r}) \<union> ?D"
  proof (intro set_eqI iffI)
    fix n assume "n \<in> frontierSet s'"
    then have "edgesOn s n @ newEdges a ds n \<noteq> []" "n \<notin> Name ` set ?P" "n \<noteq> ?r"
      by (auto simp: frontierSet_def e p)
    then show "n \<in> (frontierSet s - {?r}) \<union> ?D"
      by (cases "edgesOn s n = []") (auto simp: frontierSet_def newEdges_empty)
  next
    fix n assume n: "n \<in> (frontierSet s - {?r}) \<union> ?D"
    show "n \<in> frontierSet s'"
    proof (cases "n \<in> ?D")
      case False
      with n show ?thesis by (auto simp: frontierSet_def e p)
    next
      case True
      then have nd: "n \<in> pdName ` set (declared s a)" and n0: "edgesOn s n = []" by (simp_all add: d)
      from n0 re have "n \<noteq> ?r" by auto
      moreover have "n \<notin> Name ` set ?P"
      proof
        assume "n \<in> Name ` set ?P"
        then obtain q where q: "q \<in> set ?P" "n = Name q" by auto
        from selInv_committed_not_declared [OF i nr q(1), of a] n0 q(2) nd show False by simp
      qed
      moreover from nd d have "newEdges a ds n \<noteq> []" by (simp add: newEdges_empty)
      ultimately show ?thesis by (simp add: frontierSet_def e p)
    qed
  qed
  have fin: "finite (frontierSet s)" by (rule finite_frontierSet [OF i])
  have "mset (remove1 ?r (unsel s)) = mset (unsel s) - {#?r#}" by simp
  also have "\<dots> = mset_set (frontierSet s) - mset_set {?r}" by (simp add: selInv_mset [OF i])
  also have "\<dots> = mset_set (frontierSet s - {?r})"
    using fin rf by (intro mset_set_Diff [symmetric]) auto
  finally have m1: "mset (remove1 ?r (unsel s)) = mset_set (frontierSet s - {?r})" .
  have "mset_set ((frontierSet s - {?r}) \<union> ?D) = mset_set (frontierSet s - {?r}) + mset_set ?D"
    using fin by (intro mset_set_Union) (auto simp: frontierSet_def)
  with m m1 fs have ms: "mset (unsel s') = mset_set (frontierSet s')" by simp
  show ?thesis
  proof (rule selInvI)
    show "projects (sel s') \<noteq> []" by (simp add: p)
    show "Name (hd (projects (sel s'))) = Name (pa (rp s'))"
      using ne selInv_root [OF i] by (simp add: p c)
    show "distinct (map Name (projects (sel s')))"
      using selInv_distinct [OF i] rn by (simp add: p)
    show "edgesOn s' n = edgesFrom s' (projects (sel s')) n" for n
      by (simp add: e p ef edgesFrom_append edgesFrom_single selInv_edges [OF i] d)
    show "edgesFrom s' ps (Name q) \<noteq> []"
      if sp: "projects (sel s') = ps @ q # qs" and pn: "ps \<noteq> []" for ps q qs
    proof (cases qs rule: rev_cases)
      case Nil
      with sp p have "ps = ?P" "q = a" by simp_all
      with re selInv_edges [OF i, of ?r] show ?thesis by (simp add: ef)
    next
      case (snoc qs' x)
      with sp p have "?P = ps @ q # qs'" by simp
      from selInv_earlier [OF i this pn] show ?thesis by (simp add: ef)
    qed
    show "mset (unsel s') = mset_set (frontierSet s')" by (rule ms)
  qed
qed

lemma unselectLast_selInv:
  assumes i: "selInv s" and nr: "noRootDependency s" and l: "butlast (projects (sel s)) \<noteq> []"
    and u: "unselectLast s = Inr s'"
  shows "selInv s' \<and> Name (last (projects (sel s))) \<in> set (unsel s') \<and>
         projects (sel s') = butlast (projects (sel s))"
proof -
  note ne = selInv_nonempty [OF i]
  then obtain P a where pe: "projects (sel s) = P @ [a]"
    by (cases "projects (sel s)" rule: rev_cases) auto
  from l pe have l': "P \<noteq> []" by simp
  let ?r = "Name a"
  let ?sb = "s\<lparr>sel := (sel s)\<lparr>projects := P\<rparr>\<rparr>"
  have sb: "s\<lparr>sel := (sel s)\<lparr>projects := butlast (projects (sel s))\<rparr>\<rparr> = ?sb" by (simp add: pe)
  from heapPush_total [of ?sb ?r] obtain sc where
    sc: "heapPush ?sb ?r = Inr sc" "mset (unsel sc) = add_mset ?r (mset (unsel s))"
        "sel sc = sel ?sb" "frontierOnly ?sb sc"
    by auto
  from sc(4) have c: "sm sc = sm s" "rp sc = rp s" by (simp_all add: frontierOnly_def)
  from u ne sc(1) obtain ds where gc: "getDependenciesOf sc a = Inr ds"
    and ul: "unselectLoop ds sc = Inr s'"
    by (cases "getDependenciesOf sc a") (auto simp: unselectLast_def Let_def pe)
  from gc getDependenciesOf_cong [OF c, of a] have d: "declared s a = ds"
    by (simp add: declared_def)
  have es: "edgesOn s n = edgesFrom s P n @ newEdges a ds n" for n
  proof -
    have "edgesOn s n = edgesFrom s (P @ [a]) n" using selInv_edges [OF i, of n] by (simp add: pe)
    then show ?thesis by (simp add: edgesFrom_append edgesFrom_single d)
  qed
  have ec: "edgesOn sc n = edgesFrom s P n @ newEdges a ds n" for n
    using es [of n] sc(3) by (simp add: getDependenciesOn_def)
  have same: "(length (edgesOn sc n) = count_list (map pdName ds) n) = (edgesFrom s P n = [])" for n
    by (simp add: ec length_newEdges)
  have dn: "distinct (map Name (P @ [a]))" using selInv_distinct [OF i] by (simp add: pe)
  then have rn: "?r \<notin> Name ` set P" by simp
  have fr: "set (unsel s) = frontierSet s" using selInv_frontier [OF i] by simp
  have uc: "set (unsel sc) = insert ?r (frontierSet s)"
  proof -
    have "set (unsel sc) = set_mset (mset (unsel sc))" by simp
    also have "\<dots> = insert ?r (set (unsel s))" unfolding sc(2) by simp
    finally show ?thesis by (simp add: fr)
  qed
  let ?Z = "{n \<in> pdName ` set ds. edgesFrom s P n = []}"
  let ?F = "{n. edgesFrom s P n \<noteq> [] \<and> n \<notin> Name ` set P}"
  have earlier: "edgesFrom s P (Name q) \<noteq> []" if q: "q \<in> set P" "Name q \<noteq> Name (pa (rp s))" for q
  proof -
    from q(1) obtain ps qs where sp: "P = ps @ q # qs" by (auto simp: in_set_conv_decomp)
    have "ps \<noteq> []"
    proof
      assume "ps = []"
      with sp pe have "hd (projects (sel s)) = q" by (metis append_Cons append_Nil list.sel(1))
      with selInv_root [OF i] q(2) show False by simp
    qed
    moreover from sp pe have "projects (sel s) = ps @ q # (qs @ [a])" by simp
    ultimately have "edgesFrom s ps (Name q) \<noteq> []" by (rule selInv_earlier [OF i, rotated])
    then show ?thesis by (subst sp) (simp add: edgesFrom_append)
  qed
  have zin: "n \<in> insert ?r (frontierSet s)" if n: "n \<in> ?Z" for n
  proof (cases "n = ?r")
    case True
    then show ?thesis by simp
  next
    case False
    from n have nd: "n \<in> pdName ` set (declared s a)" and n0: "edgesFrom s P n = []"
      by (simp_all add: d)
    have "n \<notin> Name ` set P"
    proof
      assume "n \<in> Name ` set P"
      then obtain q where q: "q \<in> set P" "n = Name q" by auto
      show False
      proof (cases "Name q = Name (pa (rp s))")
        case True
        with nr nd q(2) show False by (simp add: noRootDependency_def)
      next
        case False
        from earlier [OF q(1) False] n0 q(2) show False by simp
      qed
    qed
    moreover from nd d have "newEdges a ds n \<noteq> []" by (simp add: newEdges_empty)
    ultimately have "n \<in> frontierSet s"
      using False by (simp add: frontierSet_def pe es)
    then show ?thesis by simp
  qed
  have P: "\<forall>n. count_list (map pdName ds) n \<le> length (edgesOn sc n)"
    by (simp add: ec length_newEdges)
  have Q: "\<forall>n \<in> pdName ` set ds. length (edgesOn sc n) = count_list (map pdName ds) n \<longrightarrow> n \<in> set (unsel sc)"
  proof (intro ballI impI)
    fix n
    assume "n \<in> pdName ` set ds" "length (edgesOn sc n) = count_list (map pdName ds) n"
    then have "n \<in> ?Z" by (simp add: same)
    from zin [OF this] show "n \<in> set (unsel sc)" by (simp add: uc)
  qed
  from unselectLoop_closed [OF P Q] ul have
    s2: "\<forall>n. edgesOn s' n = take (length (edgesOn sc n) - count_list (map pdName ds) n) (edgesOn sc n)"
        "mset (unsel s') +
           mset_set {n \<in> pdName ` set ds. length (edgesOn sc n) = count_list (map pdName ds) n}
           = mset (unsel sc)"
        "projects (sel s') = projects (sel sc)" "frontierOnly sc s'"
    by auto
  from s2(4) c have c': "sm s' = sm s" "rp s' = rp s" by (simp_all add: frontierOnly_def)
  note ef = edgesFrom_cong [OF c']
  have e': "edgesOn s' n = edgesFrom s P n" for n
    using s2(1) by (simp add: ec length_newEdges)
  have p': "projects (sel s') = P" using s2(3) sc(3) by simp
  have fs': "frontierSet s' = ?F" by (simp add: frontierSet_def e' p')
  have rF: "?r \<in> ?F"
  proof -
    from l' selInv_earlier [OF i, of P a "[]"] pe have "edgesFrom s P ?r \<noteq> []" by simp
    with rn show ?thesis by simp
  qed
  have split: "insert ?r (frontierSet s) = ?F \<union> ?Z"
  proof (intro set_eqI iffI)
    fix n assume n: "n \<in> insert ?r (frontierSet s)"
    show "n \<in> ?F \<union> ?Z"
    proof (cases "n = ?r")
      case True
      with rF show ?thesis by simp
    next
      case False
      with n have "n \<in> frontierSet s" by simp
      then have a: "edgesFrom s P n @ newEdges a ds n \<noteq> []" and b: "n \<notin> Name ` set (P @ [a])"
        by (simp_all add: frontierSet_def es pe)
      from b have b': "n \<notin> Name ` set P" by simp
      show ?thesis
      proof (cases "edgesFrom s P n = []")
        case True
        with a have "n \<in> pdName ` set ds" by (simp add: newEdges_empty)
        with True show ?thesis by simp
      next
        case False
        with b' show ?thesis by simp
      qed
    qed
  next
    fix n assume n: "n \<in> ?F \<union> ?Z"
    show "n \<in> insert ?r (frontierSet s)"
    proof (cases "n \<in> ?Z")
      case True
      then show ?thesis by (rule zin)
    next
      case False
      with n have a: "edgesFrom s P n \<noteq> []" and b: "n \<notin> Name ` set P" by auto
      show ?thesis
      proof (cases "n = ?r")
        case True
        then show ?thesis by simp
      next
        case False
        with a b have "n \<in> frontierSet s"
          by (simp add: frontierSet_def pe es)
        then show ?thesis by simp
      qed
    qed
  qed
  have fin: "finite (frontierSet s)" by (rule finite_frontierSet [OF i])
  have rnf: "?r \<notin> frontierSet s" by (simp add: frontierSet_def pe)
  have finF: "finite ?F" by (rule finite_subset [OF _ finite_edged [of s P]]) auto
  have finZ: "finite ?Z" by simp
  have "mset (unsel s') + mset_set ?Z = add_mset ?r (mset_set (frontierSet s))"
    using s2(2) sc(2) by (simp add: same selInv_mset [OF i])
  also have "\<dots> = mset_set (insert ?r (frontierSet s))" using fin rnf by simp
  also have "\<dots> = mset_set (?F \<union> ?Z)" by (simp only: split)
  also have "\<dots> = mset_set ?F + mset_set ?Z"
    using finF finZ by (intro mset_set_Union) auto
  finally have ms: "mset (unsel s') = mset_set ?F" by simp
  have inv: "selInv s'"
  proof (rule selInvI)
    show "projects (sel s') \<noteq> []" using l' by (simp add: p')
    show "Name (hd (projects (sel s'))) = Name (pa (rp s'))"
      using l' selInv_root [OF i] by (simp add: p' c' pe)
    show "distinct (map Name (projects (sel s')))" using dn by (simp add: p')
    show "edgesOn s' n = edgesFrom s' (projects (sel s')) n" for n
      by (simp add: e' p' ef)
    show "edgesFrom s' ps (Name q) \<noteq> []"
      if sp: "projects (sel s') = ps @ q # qs" and pn: "ps \<noteq> []" for ps q qs
    proof -
      from sp p' pe have "projects (sel s) = ps @ q # (qs @ [a])" by simp
      from selInv_earlier [OF i this pn] show ?thesis by (simp add: ef)
    qed
    show "mset (unsel s') = mset_set (frontierSet s')" by (simp add: ms fs')
  qed
  from selInv_frontier [OF inv] rF fs' have "?r \<in> set (unsel s')" by simp
  with inv p' show ?thesis by (simp add: pe)
qed

lemma advance_ref: "advance q r = (q', e) \<Longrightarrow> ref q' = ref q"
  by (auto simp: advance_def Let_def split: if_splits prod.splits option.splits)

lemma marksOnly_ref: "marksOnly s s' \<Longrightarrow> ref (mem s' a) = ref (mem s a)"
  by (simp add: marksOnly_def sameQueue_def)

lemma fvvLoop_ref: "fvvLoop X s q = Inr (b, s') \<Longrightarrow> ref (mem s' a) = ref (mem s a)"
proof (induction X s q arbitrary: b s' rule: fvvLoop.induct)
  case (1 X s q)
  let ?atom = "\<lparr>Name = ref (mem s q), Version = current (mem s q)\<rparr>"
  show ?case
  proof (cases "satisfiable X s ?atom")
    case (Inl p)
    with "1.prems" show ?thesis by (simp add: fvvLoop.simps [of X s q])
  next
    case (Inr r)
    obtain e s1 where r: "r = (e, s1)" by (cases r)
    from Inr r have m: "ref (mem s1 a) = ref (mem s a)" for a
      by (auto dest!: satisfiable_marksOnly marksOnly_ref)
    show ?thesis
    proof (cases e)
      case None
      with Inr r "1.prems" m show ?thesis by (simp add: fvvLoop.simps [of X s q])
    next
      case (Some err)
      obtain q' adverr where adv: "advance (mem s1 q) (Some err) = (q', adverr)"
        by (cases "advance (mem s1 q) (Some err)")
      let ?s2 = "s1\<lparr>mem := (mem s1)(q := q')\<rparr>"
      have m2: "ref (mem ?s2 a) = ref (mem s a)" using m advance_ref [OF adv] by simp
      show ?thesis
      proof (cases "adverr \<noteq> None \<or> isExhausted (mem ?s2 q)")
        case True
        with Inr r Some adv "1.prems" m2 show ?thesis
          by (auto simp: fvvLoop.simps [of X s q] Let_def split: if_splits)
      next
        case False
        with Inr r Some adv "1.prems" have "fvvLoop X ?s2 q = Inr (b, s')"
          by (auto simp: fvvLoop.simps [of X s q] Let_def split: if_splits)
        with "1.IH" [OF refl Inr r [symmetric] Some adv [symmetric] refl] False
        have "ref (mem s' a) = ref (mem ?s2 a)" by auto
        with m2 show ?thesis by simp
      qed
    qed
  qed
qed

lemma findValidVersion_ref:
  "findValidVersion X s q = Inr (e, s') \<Longrightarrow> ref (mem s' a) = ref (mem s a)"
  by (auto simp: findValidVersion_def Let_def marksOnly_ref [OF fail_marksOnly]
           split: if_splits sum.splits prod.splits bool.splits list.splits
           dest!: fvvLoop_ref [where a = a])

text \<open>What \<^verbatim>\<open>createVersionQueue\<close> does to the store: a queue it returns is a new object.\<close>

definition allocates ::
  "('v, 'c) solver \<Rightarrow> ProjectName \<Rightarrow> nat option \<Rightarrow> ('v, 'c) solver \<Rightarrow> bool" where
  "allocates s r qo s' =
     (storeOnly s s' \<and> nextp s \<le> nextp s' \<and> (\<forall>a. a < nextp s \<longrightarrow> ref (mem s' a) = ref (mem s a)) \<and>
      (\<forall>q. qo = Some q \<longrightarrow> nextp s \<le> q \<and> q < nextp s' \<and> ref (mem s' q) = r))"

lemma newVersionQueue_ref: "newVersionQueue X r lockv m = Inr q0 \<Longrightarrow> ref q0 = r"
  by (auto simp: newVersionQueue_def split: if_splits prod.splits option.splits)

lemma createVersionQueueLocked_allocates:
  assumes "createVersionQueueLocked X s r = Inr ((qo, e), s')"
  shows "allocates s r qo s'"
proof (cases "newVersionQueue X r (getLockVersionIfValid X s r) (sm s)")
  case (Inl err)
  with assms show ?thesis
    by (simp add: createVersionQueueLocked_def Let_def allocates_def storeOnly_def)
next
  case (Inr q0)
  let ?s1 = "s\<lparr>mem := (mem s)(nextp s := q0), nextp := Suc (nextp s)\<rparr>"
  from assms Inr have f: "findValidVersion X ?s1 (nextp s) = Inr (e, s')" and qo: "qo = Some (nextp s)"
    by (auto simp: createVersionQueueLocked_def Let_def alloc_def split: sum.splits prod.splits)
  from findValidVersion_queuesOnly [OF f] have q: "queuesOnly ?s1 s'" .
  have rf: "ref (mem s' a) = ref (mem ?s1 a)" for a by (rule findValidVersion_ref [OF f])
  from q rf qo newVersionQueue_ref [OF Inr] show ?thesis
    by (simp add: allocates_def storeOnly_def queuesOnly_def)
qed

lemma createVersionQueue_allocates:
  assumes "createVersionQueue X s r = Inr ((qo, e), s')"
  shows "allocates s r qo s'"
proof (cases "r = Name (pa (rp s))")
  case True
  with assms show ?thesis
    by (auto simp: createVersionQueue_def alloc_def allocates_def storeOnly_def
             split: sum.splits dest: newVersionQueue_ref)
next
  case False
  have same: "allocates s r None s" by (simp add: allocates_def storeOnly_def)
  from False assms same show ?thesis
    by (auto simp: createVersionQueue_def split: prod.splits option.splits if_splits
             dest: createVersionQueueLocked_allocates)
qed

text \<open>
  The queue stack runs beside the selection: its queues are for the names of the
  committed atoms after the root, in order, and each was allocated before.
\<close>

definition stackInv :: "('v, 'c) solver \<Rightarrow> bool" where
  "stackInv s =
     (map (\<lambda>q. ref (mem s q)) (versions s) = map Name (tl (projects (sel s))) \<and>
      (\<forall>a \<in> set (versions s). a < nextp s))"

definition solveInv :: "('v, 'c) solver \<Rightarrow> bool" where
  "solveInv s = (selInv s \<and> stackInv s \<and> noRootDependency s)"

lemma stackInv_nonempty: "stackInv s \<Longrightarrow> versions s \<noteq> [] \<Longrightarrow> tl (projects (sel s)) \<noteq> []"
  by (auto simp: stackInv_def)

lemma solveInv_allocates:
  assumes i: "solveInv s" and a: "allocates s r qo s'"
  shows "solveInv s'"
proof -
  from a have c: "sm s' = sm s" "rp s' = rp s" "sel s' = sel s" "unsel s' = unsel s"
    and v: "versions s' = versions s" and n: "nextp s \<le> nextp s'"
    and rf: "\<And>a. a < nextp s \<Longrightarrow> ref (mem s' a) = ref (mem s a)"
    by (simp_all add: allocates_def storeOnly_def)
  from i have "selInv s'" by (simp add: solveInv_def selInv_cong [OF c])
  moreover from i have "noRootDependency s'"
    by (simp add: solveInv_def noRootDependency_cong [OF c(1,2)])
  moreover have "stackInv s'"
  proof -
    from i have s: "map (\<lambda>q. ref (mem s q)) (versions s) = map Name (tl (projects (sel s)))"
      and b: "\<forall>a \<in> set (versions s). a < nextp s"
      by (simp_all add: solveInv_def stackInv_def)
    from b rf have "map (\<lambda>q. ref (mem s' q)) (versions s) = map (\<lambda>q. ref (mem s q)) (versions s)"
      by simp
    with s b n show ?thesis by (auto simp: stackInv_def v c)
  qed
  ultimately show ?thesis by (simp add: solveInv_def)
qed

lemma tl_butlast_names:
  assumes "tl P \<noteq> []" and "Name a = Name (last P)"
  shows "map Name (tl (butlast P @ [a])) = map Name (tl P)"
    and "map Name (tl (butlast P)) = butlast (map Name (tl P))"
    and "butlast P \<noteq> []" and "last (map Name (tl P)) = Name (last P)"
proof -
  from assms(1) obtain x y Q where P: "P = x # Q" "Q \<noteq> []" by (cases P) auto
  then obtain R z where Q: "Q = R @ [z]" by (cases Q rule: rev_cases) auto
  from P Q assms(2) show "map Name (tl (butlast P @ [a])) = map Name (tl P)"
    by (simp add: butlast_append)
  from P Q show "map Name (tl (butlast P)) = butlast (map Name (tl P))"
    by (simp add: butlast_append)
  from P Q show "butlast P \<noteq> []" by simp
  from P Q show "last (map Name (tl P)) = Name (last P)" by simp
qed

text \<open>
  Retracting the top of the stack: \<open>s0\<close> is the state \<^verbatim>\<open>unselectLast\<close> starts from and \<open>s2\<close>
  the one it returns; \<open>t\<close> is a later state with the top queue popped.
\<close>

lemma retract_solveInv:
  assumes i: "solveInv s" and ne: "versions s \<noteq> []"
    and c0: "sm s0 = sm s" "rp s0 = rp s" "sel s0 = sel s" "unsel s0 = unsel s"
    and u: "unselectLast s0 = Inr s2"
  shows "selInv s2" and "noRootDependency s2"
    and "ref (mem s (last (versions s))) \<in> set (unsel s2)"
    and "projects (sel s2) = butlast (projects (sel s))"
    and "Name (last (projects (sel s))) = ref (mem s (last (versions s)))"
    and "tl (projects (sel s)) \<noteq> []"
    and "sm t = sm s \<Longrightarrow> rp t = rp s \<Longrightarrow> sel t = sel s2 \<Longrightarrow> unsel t = unsel s2 \<Longrightarrow>
         versions t = butlast (versions s) \<Longrightarrow> nextp t = nextp s \<Longrightarrow>
         (\<And>a. ref (mem t a) = ref (mem s a)) \<Longrightarrow> solveInv t"
proof -
  let ?P = "projects (sel s)"
  from i have si: "selInv s" and st: "stackInv s" and nr: "noRootDependency s"
    by (simp_all add: solveInv_def)
  from st have m: "map (\<lambda>q. ref (mem s q)) (versions s) = map Name (tl ?P)"
    and b: "\<forall>a \<in> set (versions s). a < nextp s"
    by (simp_all add: stackInv_def)
  from stackInv_nonempty [OF st ne] show tn: "tl ?P \<noteq> []" .
  note tb = tl_butlast_names [OF tn]
  from si have si0: "selInv s0" by (simp add: selInv_cong [OF c0])
  from nr have nr0: "noRootDependency s0" by (simp add: noRootDependency_cong [OF c0(1,2)])
  from tb(3) [OF refl] have l0: "butlast (projects (sel s0)) \<noteq> []" by (simp add: c0)
  from unselectLast_selInv [OF si0 nr0 l0 u]
  have r: "selInv s2" "Name (last ?P) \<in> set (unsel s2)" "projects (sel s2) = butlast ?P"
    by (simp_all add: c0)
  from unselectLast_frontierOnly [OF u] have c2: "sm s2 = sm s" "rp s2 = rp s"
    by (simp_all add: frontierOnly_def c0)
  show "selInv s2" by (rule r(1))
  show nr2: "noRootDependency s2" using nr by (simp add: noRootDependency_cong [OF c2])
  have "last (map (\<lambda>q. ref (mem s q)) (versions s)) = last (map Name (tl ?P))" by (simp only: m)
  with ne tb(4) [OF refl] show top: "Name (last ?P) = ref (mem s (last (versions s)))"
    by (simp add: last_map)
  with r(2) show "ref (mem s (last (versions s))) \<in> set (unsel s2)" by simp
  show "projects (sel s2) = butlast ?P" by (rule r(3))
  show "solveInv t"
    if ct: "sm t = sm s" "rp t = rp s" "sel t = sel s2" "unsel t = unsel s2"
      and vt: "versions t = butlast (versions s)" and nt: "nextp t = nextp s"
      and rt: "\<And>a. ref (mem t a) = ref (mem s a)"
  proof -
    from ct c2 have ct2: "sm t = sm s2" "rp t = rp s2" "sel t = sel s2" "unsel t = unsel s2"
      by simp_all
    from r(1) have "selInv t" by (simp add: selInv_cong [OF ct2])
    moreover from nr2 have "noRootDependency t" by (simp add: noRootDependency_cong [OF ct2(1,2)])
    moreover have "stackInv t"
    proof -
      have "map (\<lambda>q. ref (mem t q)) (versions t) = butlast (map (\<lambda>q. ref (mem s q)) (versions s))"
        by (simp add: vt rt map_butlast)
      also have "\<dots> = map Name (tl (projects (sel t)))"
        by (simp add: m ct r(3) tb(2) [OF refl])
      finally show ?thesis using b by (auto simp: stackInv_def vt nt dest: in_set_butlastD)
    qed
    ultimately show ?thesis by (simp add: solveInv_def)
  qed
qed

lemma backtrackPop_solveInv:
  "backtrackPop s = Inr (b, s') \<Longrightarrow> solveInv s \<Longrightarrow> solveInv s'"
proof (induction s arbitrary: b s' rule: backtrackPop.induct)
  case (1 s)
  show ?case
  proof (cases "length (versions s) = 0 \<or> failed (mem s (last (versions s)))")
    case True
    with "1.prems" show ?thesis
      by (auto simp: backtrackPop.simps [of s] split: if_splits)
  next
    case False
    let ?s0 = "s\<lparr>versions := butlast (versions s)\<rparr>"
    from False "1.prems" obtain s1 where u: "unselectLast ?s0 = Inr s1" and r: "backtrackPop s1 = Inr (b, s')"
      by (auto simp: backtrackPop.simps [of s] split: if_splits sum.splits)
    from False have ne: "versions s \<noteq> []" by simp
    from unselectLast_frontierOnly [OF u]
    have f: "sm s1 = sm s" "rp s1 = rp s" "versions s1 = butlast (versions s)" "nextp s1 = nextp s"
      "mem s1 = mem s"
      by (simp_all add: frontierOnly_def)
    have "solveInv s1"
      by (rule retract_solveInv(7) [OF "1.prems"(2) ne _ _ _ _ u]) (simp_all add: f)
    with "1.IH" [OF _ _ u r] False show ?thesis by auto
  qed
qed

lemma backtrackLoop_solveInv:
  "backtrackLoop X s = Inr (b, s') \<Longrightarrow> solveInv s \<Longrightarrow> solveInv s'"
proof (induction X s arbitrary: b s' rule: backtrackLoop.induct)
  case (1 X s)
  from "1.prems"(1) obtain b1 s1 where p: "backtrackPop s = Inr (b1, s1)"
    by (cases "backtrackPop s") (auto simp: backtrackLoop.simps [of X s])
  from backtrackPop_solveInv [OF p "1.prems"(2)] have m1: "solveInv s1" .
  show ?case
  proof (cases b1)
    case False
    with p "1.prems"(1) m1 show ?thesis by (simp add: backtrackLoop.simps [of X s])
  next
    case True
    then have bt: "b1 = True" by simp
    let ?q = "last (versions s1)"
    from True p "1.prems"(1) obtain s2 where u: "unselectLast s1 = Inr s2"
      by (cases "unselectLast s1") (auto simp: backtrackLoop.simps [of X s] Let_def)
    obtain q' adverr where adv: "advance (mem s2 ?q) None = (q', adverr)"
      by (cases "advance (mem s2 ?q) None")
    let ?s3 = "s2\<lparr>mem := (mem s2)(?q := q')\<rparr>"
    from unselectLast_frontierOnly [OF u]
    have f: "sm s2 = sm s1" "rp s2 = rp s1" "versions s2 = versions s1" "nextp s2 = nextp s1"
      "mem s2 = mem s1"
      by (simp_all add: frontierOnly_def)
    from backtrackPop_versions [OF p] True have ne: "versions s1 \<noteq> []" by simp
    note rt = retract_solveInv [OF m1 ne refl refl refl refl u]
    have rq: "ref q' = ref (mem s1 ?q)"
      using advance_ref [OF adv] by (simp add: f)
    then have r3: "ref (mem ?s3 a) = ref (mem s1 a)" for a
      by (simp add: f)
    show ?thesis
    proof (cases "adverr = None \<and> \<not> isExhausted (mem ?s3 ?q)")
      case False
      with True p u adv "1.prems"(1)
      have r: "backtrackLoop X (?s3\<lparr>versions := butlast (versions ?s3)\<rparr>) = Inr (b, s')"
        by (auto simp: backtrackLoop.simps [of X s] Let_def split: if_splits)
      have "solveInv (?s3\<lparr>versions := butlast (versions ?s3)\<rparr>)"
        by (rule rt(7)) (simp_all add: f rq)
      with "1.IH"(2) [OF p refl bt refl u adv [symmetric] refl False r] show ?thesis .
    next
      case ok: True
      from True p u adv ok "1.prems"(1) obtain e s4 where fv: "findValidVersion X ?s3 ?q = Inr (e, s4)"
        by (cases "findValidVersion X ?s3 ?q")
           (auto simp: backtrackLoop.simps [of X s] Let_def split: if_splits)
      from findValidVersion_queuesOnly [OF fv]
      have q4: "versions s4 = versions s1" "sel s4 = sel s2" "unsel s4 = unsel s2" "sm s4 = sm s1"
        "rp s4 = rp s1" "nextp s4 = nextp s1"
        by (simp_all add: queuesOnly_def f)
      have r4: "ref (mem s4 a) = ref (mem s1 a)" for a
        using findValidVersion_ref [OF fv, of a] r3 [of a] by simp
      show ?thesis
      proof (cases e)
        case None
        let ?a = "\<lparr>Name = ref (mem s4 ?q), Version = current (mem s4 ?q)\<rparr>"
        from None True p u adv ok fv "1.prems"(1)
        have sv: "selectVersion s4 ?a = Inr s'"
          by (auto simp: backtrackLoop.simps [of X s] Let_def split: if_splits sum.splits)
        have c4: "sm s4 = sm s2" "rp s4 = rp s2" "sel s4 = sel s2" "unsel s4 = unsel s2"
          by (simp_all add: q4 f)
        from rt(1) have i4: "selInv s4" by (simp add: selInv_cong [OF c4])
        from rt(2) have n4: "noRootDependency s4" by (simp add: noRootDependency_cong [OF c4(1,2)])
        from rt(3) have on: "Name ?a \<in> set (unsel s4)" by (simp add: q4 r4)
        from selectVersion_selInv [OF i4 n4 on sv] have i5: "selInv s'" .
        from selectVersion_frontierOnly [OF sv]
        have f5: "sm s' = sm s4" "rp s' = rp s4" "versions s' = versions s4" "nextp s' = nextp s4"
          "mem s' = mem s4"
          by (simp_all add: frontierOnly_def)
        from n4 have n5: "noRootDependency s'" by (simp add: noRootDependency_cong [OF f5(1,2)])
        from selectVersion_projects [OF sv] have p5: "projects (sel s') = butlast (projects (sel s1)) @ [?a]"
          by (simp add: q4 rt(4))
        from m1 have st: "map (\<lambda>q. ref (mem s1 q)) (versions s1) = map Name (tl (projects (sel s1)))"
          and bd: "\<forall>a \<in> set (versions s1). a < nextp s1"
          by (simp_all add: solveInv_def stackInv_def)
        have nm: "Name ?a = Name (last (projects (sel s1)))" by (simp add: r4 rt(5))
        have tb: "map Name (tl (projects (sel s'))) = map Name (tl (projects (sel s1)))"
          unfolding p5 by (rule tl_butlast_names(1) [OF rt(6) nm])
        have "stackInv s'"
          using st bd by (simp add: stackInv_def f5 q4 r4 tb)
        with i5 n5 show ?thesis by (simp add: solveInv_def)
      next
        case (Some err)
        with True p u adv ok fv "1.prems"(1)
        have r: "backtrackLoop X (s4\<lparr>versions := butlast (versions s4)\<rparr>) = Inr (b, s')"
          by (auto simp: backtrackLoop.simps [of X s] Let_def split: if_splits)
        have "solveInv (s4\<lparr>versions := butlast (versions s4)\<rparr>)"
          by (rule rt(7)) (simp_all add: q4 r4)
        with "1.IH"(1) [OF p refl bt refl u adv [symmetric] refl ok fv refl Some r] show ?thesis .
      qed
    qed
  qed
qed

lemma solveInv_attempts: "solveInv (s\<lparr>attempts := k\<rparr>) = solveInv s"
proof -
  have c: "sm (s\<lparr>attempts := k\<rparr>) = sm s" "rp (s\<lparr>attempts := k\<rparr>) = rp s"
    "sel (s\<lparr>attempts := k\<rparr>) = sel s" "unsel (s\<lparr>attempts := k\<rparr>) = unsel s"
    by simp_all
  show ?thesis
    by (simp add: solveInv_def selInv_cong [OF c] noRootDependency_cong [OF c(1,2)] stackInv_def)
qed

lemma backtrack_solveInv:
  "backtrack X s = Inr (b, s') \<Longrightarrow> solveInv s \<Longrightarrow> solveInv s'"
  by (auto simp: backtrack_def solveInv_attempts split: if_splits sum.splits bool.splits
           dest!: backtrackLoop_solveInv)

lemma commit_solveInv:
  assumes i: "solveInv s" and n: "nextUnselected s = (r, True)"
    and c: "createVersionQueue X s r = Inr ((Some q, e), s1)"
    and sv: "selectVersion s1 \<lparr>Name = ref (mem s1 q), Version = v\<rparr> = Inr s2"
  shows "solveInv (s2\<lparr>versions := versions s2 @ [q]\<rparr>)"
proof -
  let ?a = "\<lparr>Name = ref (mem s1 q), Version = v\<rparr>"
  let ?t = "s2\<lparr>versions := versions s2 @ [q]\<rparr>"
  note al = createVersionQueue_allocates [OF c]
  from solveInv_allocates [OF i al] have i1: "selInv s1" "stackInv s1" "noRootDependency s1"
    by (simp_all add: solveInv_def)
  from al have q: "nextp s \<le> q" "q < nextp s1" "ref (mem s1 q) = r" and u1: "unsel s1 = unsel s"
    by (simp_all add: allocates_def storeOnly_def)
  from n have "r \<in> set (unsel s)" by (cases "unsel s") (auto simp: nextUnselected_def)
  then have on: "Name ?a \<in> set (unsel s1)" by (simp add: q u1)
  from selectVersion_selInv [OF i1(1,3) on sv] have i2: "selInv s2" .
  from selectVersion_frontierOnly [OF sv]
  have f: "sm s2 = sm s1" "rp s2 = rp s1" "versions s2 = versions s1" "nextp s2 = nextp s1"
    "mem s2 = mem s1"
    by (simp_all add: frontierOnly_def)
  have ct: "sm ?t = sm s2" "rp ?t = rp s2" "sel ?t = sel s2" "unsel ?t = unsel s2" by simp_all
  from i2 have "selInv ?t" by (simp add: selInv_cong [OF ct])
  moreover from i1(3) have "noRootDependency ?t"
    by (simp add: noRootDependency_cong [OF ct(1,2)] noRootDependency_cong [OF f(1,2)])
  moreover have "stackInv ?t"
  proof -
    from i1(2) have st: "map (\<lambda>q. ref (mem s1 q)) (versions s1) = map Name (tl (projects (sel s1)))"
      and bd: "\<forall>a \<in> set (versions s1). a < nextp s1"
      by (simp_all add: stackInv_def)
    from selInv_nonempty [OF i1(1)] have "tl (projects (sel s1) @ [?a]) = tl (projects (sel s1)) @ [?a]"
      by simp
    with st bd q(2) selectVersion_projects [OF sv] show ?thesis
      by (simp add: stackInv_def f)
  qed
  ultimately show ?thesis by (simp add: solveInv_def)
qed

lemma solveStep_solveInv:
  assumes i: "solveInv s" and st: "solveStep X s = Inr r" and r: "r = Continue s' \<or> r = Return ps err s'"
  shows "solveInv s'"
proof (cases "nextUnselected s")
  case (Pair n b)
  show ?thesis
  proof (cases b)
    case False
    with Pair st r i show ?thesis by (auto simp: solveStep_def)
  next
    case True
    with Pair have n: "nextUnselected s = (n, True)" by simp
    from st n obtain qo e s1 where c: "createVersionQueue X s n = Inr ((qo, e), s1)"
      by (cases "createVersionQueue X s n") (auto simp: solveStep_def)
    from solveInv_allocates [OF i createVersionQueue_allocates [OF c]] have i1: "solveInv s1" .
    show ?thesis
    proof (cases e)
      case (Some er)
      with st n c r obtain b2 where "backtrack X s1 = Inr (b2, s')"
        by (cases qo) (auto simp: solveStep_def split: sum.splits prod.splits bool.splits)
      from backtrack_solveInv [OF this i1] show ?thesis .
    next
      case None
      with st n c r obtain q s2 where q: "qo = Some q"
        and sv: "selectVersion s1 \<lparr>Name = ref (mem s1 q), Version = current (mem s1 q)\<rparr> = Inr s2"
        and s': "s' = s2\<lparr>versions := versions s2 @ [q]\<rparr>"
        by (auto simp: solveStep_def split: sum.splits option.splits if_splits)
      from commit_solveInv [OF i n c [unfolded q] sv] s' show ?thesis by simp
    qed
  qed
qed

lemma SolveInit_fields:
  "sel (SolveInit s r u) = \<lparr>projects = [], deps = Map.empty\<rparr>" "unsel (SolveInit s r u) = []"
  "versions (SolveInit s r u) = versions s" "rp (SolveInit s r u) = r"
  by (simp_all add: SolveInit_def Let_def split: option.splits)

lemma seed_solveInv:
  assumes v: "versions s0 = []" and nr: "noRootDependency (SolveInit s0 root upg)"
    and sv: "selectVersion (SolveInit s0 root upg) (pa (rp (SolveInit s0 root upg))) = Inr s"
  shows "solveInv s"
proof -
  let ?i = "SolveInit s0 root upg"
  let ?a = "pa root"
  from sv have sv': "selectVersion ?i ?a = Inr s" by (simp add: SolveInit_fields)
  have e0: "getDependenciesOn \<lparr>projects = [], deps = Map.empty\<rparr> n = []" for n
    by (simp add: getDependenciesOn_def)
  from selectVersion_closed [OF sv'] obtain ds where
    g: "getDependenciesOf ?i ?a = Inr ds" and
    e: "\<And>n. edgesOn s n = newEdges ?a ds n" and
    m: "mset (unsel s) = mset_set (pdName ` set ds)" and
    p: "projects (sel s) = [?a]" and fr: "frontierOnly ?i s"
    by (auto simp: SolveInit_fields e0)
  from fr have c: "sm s = sm ?i" "rp s = rp ?i" and vs: "versions s = []"
    by (simp_all add: frontierOnly_def SolveInit_fields v)
  from g have d: "declared ?i ?a = ds" by (simp add: declared_def)
  from nr d have rn: "Name ?a \<notin> pdName ` set ds"
    by (auto simp: noRootDependency_def SolveInit_fields)
  have "frontierSet s = {n. n \<in> pdName ` set ds \<and> n \<noteq> Name ?a}"
    by (simp add: frontierSet_def e p newEdges_empty)
  also have "\<dots> = pdName ` set ds" using rn by blast
  finally have fs: "frontierSet s = pdName ` set ds" .
  have "selInv s"
  proof (rule selInvI)
    show "projects (sel s) \<noteq> []" by (simp add: p)
    show "Name (hd (projects (sel s))) = Name (pa (rp s))" by (simp add: p c SolveInit_fields)
    show "distinct (map Name (projects (sel s)))" by (simp add: p)
    show "edgesOn s n = edgesFrom s (projects (sel s)) n" for n
      by (simp add: e p edgesFrom_cong [OF c] edgesFrom_single d)
    show "edgesFrom s ps (Name q) \<noteq> []"
      if "projects (sel s) = ps @ q # qs" and "ps \<noteq> []" for ps q qs
      using that by (cases ps) (simp_all add: p)
    show "mset (unsel s) = mset_set (frontierSet s)" by (simp add: m fs)
  qed
  moreover have "stackInv s" by (simp add: stackInv_def vs p)
  moreover from nr have "noRootDependency s" by (simp add: noRootDependency_cong [OF c])
  ultimately show ?thesis by (simp add: solveInv_def)
qed

text \<open>
  C5, amended. Take a solve that starts with an empty queue stack (as every solve on a
  solver fresh from \<^verbatim>\<open>NewSolver\<close> does) and in which no project declares a dependency on
  the root's name. In every state between driver steps the frontier holds, once each,
  exactly the names that have at least one inbound edge in \<open>deps\<close> and are not the name of
  a committed atom. (A key of \<open>deps\<close> whose edge list is empty is not on the frontier.)
\<close>

theorem frontier_holds_pending_names:
  assumes "reachable X s0 root upg s" and "versions s0 = []"
    and "noRootDependency (SolveInit s0 root upg)"
  shows "distinct (unsel s) \<and>
         set (unsel s) =
           {n. getDependenciesOn (sel s) n \<noteq> [] \<and> n \<notin> Name ` set (projects (sel s))}"
proof -
  from assms(1) have "solveInv s"
  proof (induction rule: reachable.induct)
    case (seeded s)
    from seed_solveInv [OF assms(2,3) seeded] show ?case .
  next
    case (continued s s')
    from solveStep_solveInv [OF continued(3,2)] show ?case by simp
  next
    case (returned s ps err s')
    from solveStep_solveInv [OF returned(3,2)] show ?case by simp
  qed
  then have "selInv s" by (simp add: solveInv_def)
  from selInv_frontier [OF this] show ?thesis by (simp add: frontierSet_def)
qed

lemma stepOne_reachable:
  "reachable ranges (NewSolver (tableManager backtrackTable)) backtrackRoot [] stepOne"
  by (rule reachable.continued [OF reachable.seeded]) (rule backtrackSeeded_eq stepOne_eq)+

lemma backtrack_noRootDependency:
  "noRootDependency (SolveInit (NewSolver (tableManager backtrackTable)) backtrackRoot [])"
proof -
  let ?i = "SolveInit (NewSolver (tableManager backtrackTable)) backtrackRoot []"
  have f: "sm ?i = tableManager backtrackTable" "Name (pa (rp ?i)) = ''R''"
    by (simp_all add: SolveInit_def Let_def NewSolver_def backtrackRoot_def exInfo_def exAtom_def)
  show ?thesis
    unfolding noRootDependency_def declared_def getDependenciesOf_def f
    by (auto simp: tableManager_def backtrackTable_def exInfo_def exDep_def
             split: option.splits if_splits)
qed

theorem frontier_holds_pending_names_witness:
  "versions (NewSolver (tableManager backtrackTable)) = [] \<and>
   noRootDependency (SolveInit (NewSolver (tableManager backtrackTable)) backtrackRoot []) \<and>
   reachable ranges (NewSolver (tableManager backtrackTable)) backtrackRoot [] stepOne \<and>
   projects (sel stepOne) = [exAtom ''R'' 1, exAtom ''A'' 2] \<and>
   unsel stepOne = [''B''] \<and>
   set (unsel stepOne) =
     {n. getDependenciesOn (sel stepOne) n \<noteq> [] \<and> n \<notin> Name ` set (projects (sel stepOne))}"
proof -
  have e: "versions (NewSolver (tableManager backtrackTable)) = []"
    by (simp add: NewSolver_def)
  have v: "projects (sel stepOne) = [exAtom ''R'' 1, exAtom ''A'' 2]" "unsel stepOne = [''B'']"
    by code_simp+
  from frontier_holds_pending_names [OF stepOne_reachable e backtrack_noRootDependency]
  have "set (unsel stepOne) =
     {n. getDependenciesOn (sel stepOne) n \<noteq> [] \<and> n \<notin> Name ` set (projects (sel stepOne))}"
    by (rule conjunct2)
  with e backtrack_noRootDependency stepOne_reachable v show ?thesis by (intro conjI)
qed

text \<open>
  C5 as stated fails in a fresh solve. In the backtracking scenario, after A at 2 is
  retracted and A at 1 committed, \<open>deps\<close> still has the key B, with no edge left; B is no
  committed atom, and it is not on the frontier.
\<close>

theorem frontier_misses_key:
  "reachable ranges (NewSolver (tableManager backtrackTable)) backtrackRoot [] stepTwo \<and>
   deps (sel stepTwo) ''B'' = Some [] \<and>
   ''B'' \<notin> Name ` set (projects (sel stepTwo)) \<and>
   ''B'' \<notin> set (unsel stepTwo)"
proof -
  have "deps (sel stepTwo) ''B'' = Some []" by code_simp
  moreover have "''B'' \<notin> Name ` set (projects (sel stepTwo))" by code_simp
  moreover have "''B'' \<notin> set (unsel stepTwo)" by code_simp
  ultimately show ?thesis using stepTwo_reachable by (intro conjI)
qed

section \<open>The frontier comparator\<close>

text \<open>
  The order of section 4.2, written from its words. A name is locked when the lock the
  root of this solve carries has an entry for it.
\<close>

definition versionCount :: "('v, 'c) solver \<Rightarrow> ProjectName \<Rightarrow> nat" where
  "versionCount s n = length (fst (ListVersions (sm s) n))"

definition locked :: "('v, 'c) solver \<Rightarrow> ProjectName \<Rightarrow> bool" where
  "locked s n = (case Lock (rp s) of None \<Rightarrow> False | Some lps \<Rightarrow> n \<in> lpName ` set lps)"

definition precedes :: "('v, 'c) solver \<Rightarrow> ProjectName \<Rightarrow> ProjectName \<Rightarrow> bool" where
  "precedes s i j =
     (if i = j then False
      else if i = Name (pa (rp s)) \<or> j = Name (pa (rp s)) then i = Name (pa (rp s))
      else if locked s i \<noteq> locked s j then locked s i
      else if locked s i \<and> locked s j then i < j
      else if (versionCount s i = 0) \<noteq> (versionCount s j = 0) then versionCount s i = 0
      else if versionCount s i \<noteq> versionCount s j then versionCount s i < versionCount s j
      else i < j)"

text \<open>The lock map of the solver has an entry for exactly the names of the root's lock.\<close>

definition lockMapCurrent :: "('v, 'c) solver \<Rightarrow> bool" where
  "lockMapCurrent s = (\<forall>n. (rlm s n \<noteq> None) = locked s n)"

lemma compareNames_precedes:
  "lockMapCurrent s \<Longrightarrow> compareNames s i j = precedes s i j"
  by (auto simp: compareNames_def precedes_def lockMapCurrent_def versionCount_def Let_def)

lemma unselectedComparator_precedes:
  assumes "i < length (unsel s)" and "j < length (unsel s)" and "lockMapCurrent s"
  shows "unselectedComparator s i j = Inr (precedes s (unsel s ! i) (unsel s ! j))"
  using assms by (simp add: unselectedComparator_def compareNames_precedes)

lemma lock_fold_names:
  "(foldl (\<lambda>m lp. m(lpName lp \<mapsto> lp)) m0 lps n \<noteq> None) = (m0 n \<noteq> None \<or> n \<in> lpName ` set lps)"
  by (induction lps arbitrary: m0) auto

lemma SolveInit_lockMapCurrent:
  assumes "rlm s0 = Map.empty"
  shows "lockMapCurrent (SolveInit s0 root upg)"
proof (cases "Lock root")
  case None
  with assms show ?thesis
    by (simp add: lockMapCurrent_def locked_def SolveInit_def Let_def)
next
  case (Some lps)
  have "(rlm (SolveInit s0 root upg) n \<noteq> None) = (n \<in> lpName ` set lps)" for n
  proof -
    have "rlm (SolveInit s0 root upg) n = foldl (\<lambda>m lp. m(lpName lp \<mapsto> lp)) Map.empty lps n"
      using assms Some by (simp add: SolveInit_def Let_def)
    then show ?thesis by (simp only: lock_fold_names) simp
  qed
  moreover have "Lock (rp (SolveInit s0 root upg)) = Some lps"
    using Some by (simp add: SolveInit_def Let_def)
  ultimately show ?thesis by (simp add: lockMapCurrent_def locked_def)
qed

text \<open>No step of a solve writes the source manager, the root or the lock map.\<close>

definition lockFrame :: "('v, 'c) solver \<Rightarrow> ('v, 'c) solver \<Rightarrow> bool" where
  "lockFrame s s' = (sm s' = sm s \<and> rp s' = rp s \<and> rlm s' = rlm s)"

lemma lockFrame_trans: "lockFrame s s1 \<Longrightarrow> lockFrame s1 s2 \<Longrightarrow> lockFrame s s2"
  by (simp add: lockFrame_def)

lemma frontierOnly_lockFrame: "frontierOnly s s' \<Longrightarrow> lockFrame s s'"
  by (simp add: frontierOnly_def lockFrame_def)

lemma storeOnly_lockFrame: "storeOnly s s' \<Longrightarrow> lockFrame s s'"
  by (simp add: storeOnly_def lockFrame_def)

lemma backtrackPop_lockFrame: "backtrackPop s = Inr (b, s') \<Longrightarrow> lockFrame s s'"
proof (induction s arbitrary: b s' rule: backtrackPop.induct)
  case (1 s)
  show ?case
  proof (cases "length (versions s) = 0 \<or> failed (mem s (last (versions s)))")
    case True
    with "1.prems" show ?thesis
      by (auto simp: backtrackPop.simps [of s] lockFrame_def split: if_splits)
  next
    case False
    let ?s0 = "s\<lparr>versions := butlast (versions s)\<rparr>"
    from False "1.prems" obtain s1 where u: "unselectLast ?s0 = Inr s1" and r: "backtrackPop s1 = Inr (b, s')"
      by (auto simp: backtrackPop.simps [of s] split: if_splits sum.splits)
    from unselectLast_frontierOnly [OF u] have "lockFrame s s1"
      by (simp add: frontierOnly_def lockFrame_def)
    moreover from "1.IH" [OF _ _ u r] False have "lockFrame s1 s'" by auto
    ultimately show ?thesis by (rule lockFrame_trans)
  qed
qed

lemma backtrackLoop_lockFrame: "backtrackLoop X s = Inr (b, s') \<Longrightarrow> lockFrame s s'"
proof (induction X s arbitrary: b s' rule: backtrackLoop.induct)
  case (1 X s)
  from "1.prems"(1) obtain b1 s1 where p: "backtrackPop s = Inr (b1, s1)"
    by (cases "backtrackPop s") (auto simp: backtrackLoop.simps [of X s])
  from backtrackPop_lockFrame [OF p] have m1: "lockFrame s s1" .
  show ?case
  proof (cases b1)
    case False
    with p "1.prems"(1) m1 show ?thesis by (simp add: backtrackLoop.simps [of X s])
  next
    case True
    then have bt: "b1 = True" by simp
    let ?q = "last (versions s1)"
    from True p "1.prems"(1) obtain s2 where u: "unselectLast s1 = Inr s2"
      by (cases "unselectLast s1") (auto simp: backtrackLoop.simps [of X s] Let_def)
    obtain q' adverr where adv: "advance (mem s2 ?q) None = (q', adverr)"
      by (cases "advance (mem s2 ?q) None")
    let ?s3 = "s2\<lparr>mem := (mem s2)(?q := q')\<rparr>"
    from unselectLast_frontierOnly [OF u] m1 have m3: "lockFrame s ?s3"
      by (simp add: frontierOnly_def lockFrame_def)
    show ?thesis
    proof (cases "adverr = None \<and> \<not> isExhausted (mem ?s3 ?q)")
      case False
      with True p u adv "1.prems"(1)
      have r: "backtrackLoop X (?s3\<lparr>versions := butlast (versions ?s3)\<rparr>) = Inr (b, s')"
        by (auto simp: backtrackLoop.simps [of X s] Let_def split: if_splits)
      from "1.IH"(2) [OF p refl bt refl u adv [symmetric] refl False r] m3 show ?thesis
        by (simp add: lockFrame_def)
    next
      case ok: True
      from True p u adv ok "1.prems"(1) obtain e s4 where f: "findValidVersion X ?s3 ?q = Inr (e, s4)"
        by (cases "findValidVersion X ?s3 ?q")
           (auto simp: backtrackLoop.simps [of X s] Let_def split: if_splits)
      from findValidVersion_queuesOnly [OF f] m3 have m4: "lockFrame s s4"
        by (simp add: queuesOnly_def lockFrame_def)
      show ?thesis
      proof (cases e)
        case None
        with True p u adv ok f "1.prems"(1)
        have sv: "selectVersion s4 \<lparr>Name = ref (mem s4 ?q), Version = current (mem s4 ?q)\<rparr> = Inr s'"
          by (auto simp: backtrackLoop.simps [of X s] Let_def split: if_splits sum.splits)
        from selectVersion_frontierOnly [OF sv] m4 show ?thesis
          by (simp add: frontierOnly_def lockFrame_def)
      next
        case (Some err)
        with True p u adv ok f "1.prems"(1)
        have r: "backtrackLoop X (s4\<lparr>versions := butlast (versions s4)\<rparr>) = Inr (b, s')"
          by (auto simp: backtrackLoop.simps [of X s] Let_def split: if_splits)
        from "1.IH"(1) [OF p refl bt refl u adv [symmetric] refl ok f refl Some r] m4 show ?thesis
          by (simp add: lockFrame_def)
      qed
    qed
  qed
qed

lemma backtrack_lockFrame: "backtrack X s = Inr (b, s') \<Longrightarrow> lockFrame s s'"
  by (auto simp: backtrack_def lockFrame_def split: if_splits sum.splits bool.splits
           dest!: backtrackLoop_lockFrame)

lemma solveStep_lockFrame:
  assumes "solveStep X s = Inr r" and "r = Continue s' \<or> r = Return ps err s'"
  shows "lockFrame s s'"
proof (cases "nextUnselected s")
  case (Pair n b)
  show ?thesis
  proof (cases b)
    case False
    with Pair assms show ?thesis by (auto simp: solveStep_def lockFrame_def)
  next
    case True
    with Pair have n: "nextUnselected s = (n, True)" by simp
    from assms(1) n obtain qo e s1 where c: "createVersionQueue X s n = Inr ((qo, e), s1)"
      by (cases "createVersionQueue X s n") (auto simp: solveStep_def)
    from createVersionQueue_storeOnly [OF c] have i1: "lockFrame s s1" by (rule storeOnly_lockFrame)
    show ?thesis
    proof (cases e)
      case (Some er)
      with assms n c obtain b2 where "backtrack X s1 = Inr (b2, s')"
        by (cases qo) (auto simp: solveStep_def split: sum.splits prod.splits bool.splits)
      from i1 backtrack_lockFrame [OF this] show ?thesis by (rule lockFrame_trans)
    next
      case None
      with assms n c obtain q s2 where
        sv: "selectVersion s1 \<lparr>Name = ref (mem s1 q), Version = current (mem s1 q)\<rparr> = Inr s2"
        and s': "s' = s2\<lparr>versions := versions s2 @ [q]\<rparr>"
        by (auto simp: solveStep_def split: sum.splits option.splits if_splits)
      from selectVersion_frontierOnly [OF sv] i1 s' show ?thesis
        by (simp add: frontierOnly_def lockFrame_def)
    qed
  qed
qed

text \<open>
  In a solve on a solver whose lock map was empty at entry (as it is on a solver fresh
  from \<^verbatim>\<open>NewSolver\<close>), the comparator decides by the discriminators of section 4.2 in
  every state between driver steps.
\<close>

lemma unselectedComparator_fresh:
  assumes "reachable X s0 root upg s" and "rlm s0 = Map.empty"
    and "i < length (unsel s)" and "j < length (unsel s)"
  shows "unselectedComparator s i j = Inr (precedes s (unsel s ! i) (unsel s ! j))"
proof -
  from assms(1) have "lockFrame (SolveInit s0 root upg) s"
  proof (induction rule: reachable.induct)
    case (seeded s)
    from selectVersion_frontierOnly [OF seeded] show ?case by (rule frontierOnly_lockFrame)
  next
    case (continued s s')
    from continued(3) solveStep_lockFrame [OF continued(2)] show ?case
      by (auto intro: lockFrame_trans)
  next
    case (returned s ps err s')
    from returned(3) solveStep_lockFrame [OF returned(2)] show ?case
      by (auto intro: lockFrame_trans)
  qed
  with SolveInit_lockMapCurrent [OF assms(2), of root upg] have "lockMapCurrent s"
    by (simp add: lockFrame_def lockMapCurrent_def locked_def)
  with assms(3,4) show ?thesis by (rule unselectedComparator_precedes)
qed

text \<open>
  A root that depends on A and on B; A has three versions, B has one. The first solve
  carries a lock with A at 1, the second carries no lock.
\<close>

definition lockTable :: table where
  "lockTable =
     [(''R'', [(1, [exDep ''A'' (0, None), exDep ''B'' (0, None)])]),
      (''A'', [(3, []), (2, []), (1, [])]),
      (''B'', [(1, [])])]"

definition lockedRoot :: "(nat, range) ProjectInfo" where
  "lockedRoot =
     \<lparr>pa = exAtom ''R'' 1, Dependencies = [exDep ''A'' (0, None), exDep ''B'' (0, None)],
      DevDependencies = [], Lock = Some [\<lparr>lpName = ''A'', lpVersion = Some 1\<rparr>]\<rparr>"

definition plainRoot :: "(nat, range) ProjectInfo" where
  "plainRoot = exInfo (exAtom ''R'' 1) [exDep ''A'' (0, None), exDep ''B'' (0, None)]"

definition lockedRun :: "(panic + ((nat, range) Result \<times> (nat, range) solver)) option" where
  "lockedRun = Solve ranges 10 (NewSolver (tableManager lockTable)) lockedRoot []"

definition afterLockedRun :: "(nat, range) solver" where
  "afterLockedRun =
     (case lockedRun of
        Some (Inr (r, s)) \<Rightarrow> s
      | _ \<Rightarrow> NewSolver (tableManager lockTable))"

text \<open>The state after seeding in a solve of the root without lock, on a solver \<open>s\<close>.\<close>

definition plainSeeded :: "(nat, range) solver \<Rightarrow> (nat, range) solver" where
  "plainSeeded s =
     (case selectVersion (SolveInit s plainRoot []) (pa plainRoot) of
        Inl p \<Rightarrow> s
      | Inr s' \<Rightarrow> s')"

lemma plainSeeded_eq:
  "selectVersion (SolveInit afterLockedRun plainRoot [])
     (pa (rp (SolveInit afterLockedRun plainRoot []))) = Inr (plainSeeded afterLockedRun)"
proof -
  have r: "pa (rp (SolveInit afterLockedRun plainRoot [])) = pa plainRoot"
    by (simp add: SolveInit_def Let_def split: option.splits)
  have "case selectVersion (SolveInit afterLockedRun plainRoot []) (pa plainRoot) of
          Inl p \<Rightarrow> False | Inr s \<Rightarrow> True"
    by code_simp
  then show ?thesis
    unfolding r plainSeeded_def
    by (cases "selectVersion (SolveInit afterLockedRun plainRoot []) (pa plainRoot)") auto
qed

lemma fresh_plainSeeded_eq:
  "selectVersion (SolveInit (NewSolver (tableManager lockTable)) plainRoot [])
     (pa (rp (SolveInit (NewSolver (tableManager lockTable)) plainRoot []))) =
   Inr (plainSeeded (NewSolver (tableManager lockTable)))"
proof -
  have r: "pa (rp (SolveInit (NewSolver (tableManager lockTable)) plainRoot [])) = pa plainRoot"
    by (simp add: SolveInit_def Let_def split: option.splits)
  have "case selectVersion (SolveInit (NewSolver (tableManager lockTable)) plainRoot []) (pa plainRoot) of
          Inl p \<Rightarrow> False | Inr s \<Rightarrow> True"
    by code_simp
  then show ?thesis
    unfolding r plainSeeded_def
    by (cases "selectVersion (SolveInit (NewSolver (tableManager lockTable)) plainRoot []) (pa plainRoot)") auto
qed

lemma unselectedComparator_fresh_example:
  "unsel (plainSeeded (NewSolver (tableManager lockTable))) = [''B'', ''A''] \<and>
   unselectedComparator (plainSeeded (NewSolver (tableManager lockTable))) 0 1 = Inr True \<and>
   unselectedComparator (plainSeeded (NewSolver (tableManager lockTable))) 1 0 = Inr False"
proof -
  let ?s = "plainSeeded (NewSolver (tableManager lockTable))"
  have r: "reachable ranges (NewSolver (tableManager lockTable)) plainRoot [] ?s"
    by (rule reachable.seeded) (rule fresh_plainSeeded_eq)
  have e: "rlm (NewSolver (tableManager lockTable)) = Map.empty" by (simp add: NewSolver_def)
  have u: "unsel ?s = [''B'', ''A'']" by code_simp
  then have l: "0 < length (unsel ?s)" "1 < length (unsel ?s)" by simp_all
  have p: "precedes ?s (unsel ?s ! 0) (unsel ?s ! 1) = True"
          "precedes ?s (unsel ?s ! 1) (unsel ?s ! 0) = False"
    by code_simp+
  from unselectedComparator_fresh [OF r e l(1) l(2)] unselectedComparator_fresh [OF r e l(2) l(1)] u
  show ?thesis unfolding p by (intro conjI)
qed

text \<open>
  C6. The comparator does not decide by the discriminators of section 4.2 on a solver
  that has solved before. \<^verbatim>\<open>Solve\<close> enters the lock of its root into \<^verbatim>\<open>s.rlm\<close> and never
  takes an entry out, and the comparator reads \<^verbatim>\<open>s.rlm\<close>. After a solve whose lock had A
  at 1, a solve of the root without lock finds A and B on the frontier: neither is in a
  lock of this solve, A has three versions and B one, so B goes first by "fewer versions
  first"; the comparator puts A first, as a locked name. (A solver fresh from
  \<^verbatim>\<open>NewSolver\<close> has B first, and selects B at 1 and A at 3; the used one selects A at 1.)
\<close>

theorem unselectedComparator_stale_lock:
  "map_option (map_sum id (\<lambda>r. Projects (fst r))) lockedRun =
     Some (Inr [exAtom ''R'' 1, exAtom ''A'' 1, exAtom ''B'' 1]) \<and>
   reachable ranges afterLockedRun plainRoot [] (plainSeeded afterLockedRun) \<and>
   Lock (rp (plainSeeded afterLockedRun)) = None \<and>
   unsel (plainSeeded afterLockedRun) = [''A'', ''B''] \<and>
   versionCount (plainSeeded afterLockedRun) ''A'' = 3 \<and>
   versionCount (plainSeeded afterLockedRun) ''B'' = 1 \<and>
   unselectedComparator (plainSeeded afterLockedRun) 0 1 = Inr True \<and>
   precedes (plainSeeded afterLockedRun) ''A'' ''B'' = False \<and>
   unselectedComparator (plainSeeded afterLockedRun) 1 0 = Inr False \<and>
   precedes (plainSeeded afterLockedRun) ''B'' ''A'' = True \<and>
   map_option (map_sum id (\<lambda>r. Projects (fst r))) (Solve ranges 10 afterLockedRun plainRoot []) =
     Some (Inr [exAtom ''R'' 1, exAtom ''A'' 1, exAtom ''B'' 1]) \<and>
   map_option (map_sum id (\<lambda>r. Projects (fst r)))
       (Solve ranges 10 (NewSolver (tableManager lockTable)) plainRoot []) =
     Some (Inr [exAtom ''R'' 1, exAtom ''B'' 1, exAtom ''A'' 3])"
proof -
  have a: "map_option (map_sum id (\<lambda>r. Projects (fst r))) lockedRun =
             Some (Inr [exAtom ''R'' 1, exAtom ''A'' 1, exAtom ''B'' 1])"
    by code_simp
  have b: "reachable ranges afterLockedRun plainRoot [] (plainSeeded afterLockedRun)"
    by (rule reachable.seeded) (rule plainSeeded_eq)
  have c: "Lock (rp (plainSeeded afterLockedRun)) = None"
          "unsel (plainSeeded afterLockedRun) = [''A'', ''B'']"
          "versionCount (plainSeeded afterLockedRun) ''A'' = 3"
          "versionCount (plainSeeded afterLockedRun) ''B'' = 1"
          "unselectedComparator (plainSeeded afterLockedRun) 0 1 = Inr True"
          "precedes (plainSeeded afterLockedRun) ''A'' ''B'' = False"
          "unselectedComparator (plainSeeded afterLockedRun) 1 0 = Inr False"
          "precedes (plainSeeded afterLockedRun) ''B'' ''A'' = True"
    by code_simp+
  have d: "map_option (map_sum id (\<lambda>r. Projects (fst r))) (Solve ranges 10 afterLockedRun plainRoot []) =
             Some (Inr [exAtom ''R'' 1, exAtom ''A'' 1, exAtom ''B'' 1])"
          "map_option (map_sum id (\<lambda>r. Projects (fst r)))
               (Solve ranges 10 (NewSolver (tableManager lockTable)) plainRoot []) =
             Some (Inr [exAtom ''R'' 1, exAtom ''B'' 1, exAtom ''A'' 3])"
    by code_simp+
  from a b c d show ?thesis by (intro conjI)
qed

section \<open>A walk over a queue of an earlier solve\<close>

text \<open>
  A root that depends on A. A at 3 needs B from 2 on, and B has version 1 only; A at 2
  needs nothing; A at 1 declares a constraint on B that no version meets.
\<close>

definition staleTable :: table where
  "staleTable =
     [(''R'', [(1, [exDep ''A'' (0, None)])]),
      (''A'', [(3, [exDep ''B'' (2, None)]), (2, []), (1, [exDep ''B'' (2, Some 2)])]),
      (''B'', [(1, [])])]"

definition staleRoot :: "(nat, range) ProjectInfo" where
  "staleRoot = exInfo (exAtom ''R'' 1) [exDep ''A'' (0, None)]"

definition staleFirst :: "(panic + ((nat, range) Result \<times> (nat, range) solver)) option" where
  "staleFirst = Solve ranges 10 (NewSolver (tableManager staleTable)) staleRoot []"

definition afterStaleFirst :: "(nat, range) solver" where
  "afterStaleFirst =
     (case staleFirst of
        Some (Inr (r, s)) \<Rightarrow> s
      | _ \<Rightarrow> NewSolver (tableManager staleTable))"

text \<open>
  The second solve of the same root on the same solver: the state after seeding, and the
  state after the first iteration of the loop, which commits A at 3.
\<close>

definition staleSeeded :: "(nat, range) solver" where
  "staleSeeded =
     (case selectVersion (SolveInit afterStaleFirst staleRoot []) (pa staleRoot) of
        Inl p \<Rightarrow> afterStaleFirst
      | Inr s \<Rightarrow> s)"

definition staleStepOne :: "(nat, range) solver" where
  "staleStepOne = (case solveStep ranges staleSeeded of Inr (Continue s) \<Rightarrow> s | _ \<Rightarrow> staleSeeded)"

text \<open>
  The second iteration: the queue for B finds nothing, and \<^verbatim>\<open>backtrack\<close> pops the stack down
  to the queue the first solve left for A (at address 0), retracts the last atom, which is
  the root, and advances that queue. These are the states on the way, up to the call of
  \<^verbatim>\<open>findValidVersion\<close>.
\<close>

definition staleFailed :: "(nat, range) solver" where
  "staleFailed =
     (case createVersionQueue ranges staleStepOne ''B'' of Inr (r, s) \<Rightarrow> s | _ \<Rightarrow> staleStepOne)"

definition stalePopped :: "(nat, range) solver" where
  "stalePopped = (case backtrackPop staleFailed of Inr (b, s) \<Rightarrow> s | _ \<Rightarrow> staleFailed)"

definition staleRetracted :: "(nat, range) solver" where
  "staleRetracted = (case unselectLast stalePopped of Inr s \<Rightarrow> s | _ \<Rightarrow> stalePopped)"

definition staleRetry :: "(nat, range) solver" where
  "staleRetry =
     staleRetracted\<lparr>mem := (mem staleRetracted)(0 := fst (advance (mem staleRetracted 0) None))\<rparr>"

lemma staleSeeded_eq:
  "selectVersion (SolveInit afterStaleFirst staleRoot [])
     (pa (rp (SolveInit afterStaleFirst staleRoot []))) = Inr staleSeeded"
proof -
  have r: "pa (rp (SolveInit afterStaleFirst staleRoot [])) = pa staleRoot"
    by (simp add: SolveInit_def Let_def split: option.splits)
  have "case selectVersion (SolveInit afterStaleFirst staleRoot []) (pa staleRoot) of
          Inl p \<Rightarrow> False | Inr s \<Rightarrow> True"
    by code_simp
  then show ?thesis
    unfolding r staleSeeded_def
    by (cases "selectVersion (SolveInit afterStaleFirst staleRoot []) (pa staleRoot)") auto
qed

lemma staleStepOne_eq: "solveStep ranges staleSeeded = Inr (Continue staleStepOne)"
proof -
  have "case solveStep ranges staleSeeded of Inr (Continue s) \<Rightarrow> True | _ \<Rightarrow> False"
    by code_simp
  then show ?thesis
    unfolding staleStepOne_def
    by (cases "solveStep ranges staleSeeded") (auto split: step.splits)
qed

lemma staleStepOne_reachable: "reachable ranges afterStaleFirst staleRoot [] staleStepOne"
  by (rule reachable.continued [OF reachable.seeded]) (rule staleSeeded_eq staleStepOne_eq)+

lemma staleFailed_eq:
  "\<exists>q err. createVersionQueue ranges staleStepOne ''B'' = Inr ((q, Some err), staleFailed)"
proof -
  have "case createVersionQueue ranges staleStepOne ''B'' of
          Inr ((q, Some err), s) \<Rightarrow> True | _ \<Rightarrow> False"
    by code_simp
  then show ?thesis
    unfolding staleFailed_def
    by (cases "createVersionQueue ranges staleStepOne ''B''") (auto split: option.splits)
qed

lemma stalePopped_eq: "backtrackPop staleFailed = Inr (True, stalePopped)"
proof -
  have "case backtrackPop staleFailed of Inr (b, s) \<Rightarrow> b | _ \<Rightarrow> False"
    by code_simp
  then show ?thesis
    unfolding stalePopped_def by (cases "backtrackPop staleFailed") auto
qed

lemma staleRetracted_eq: "unselectLast stalePopped = Inr staleRetracted"
proof -
  have "case unselectLast stalePopped of Inr s \<Rightarrow> True | _ \<Rightarrow> False"
    by code_simp
  then show ?thesis
    unfolding staleRetracted_def by (cases "unselectLast stalePopped") auto
qed

text \<open>The call of \<^verbatim>\<open>findValidVersion\<close> in \<^verbatim>\<open>backtrack\<close> is the one on the advanced queue.\<close>

lemma stale_backtrack_panics:
  assumes "findValidVersion ranges staleRetry 0 = Inl p"
  shows "solveStep ranges staleStepOne = Inl p"
proof -
  have q: "last (versions stalePopped) = 0" by code_simp
  have a: "snd (advance (mem staleRetracted 0) None) = None" by code_simp
  have x: "\<not> isExhausted (mem staleRetry 0)" by code_simp
  have adv: "advance (mem staleRetracted 0) None = (fst (advance (mem staleRetracted 0) None), None)"
    using a by (cases "advance (mem staleRetracted 0) None") simp
  have l: "backtrackLoop ranges staleFailed = Inl p"
    using assms x
    by (subst backtrackLoop.simps)
       (simp add: stalePopped_eq staleRetracted_eq q Let_def staleRetry_def, subst adv, simp add: q)
  have v: "versions staleFailed \<noteq> []" by code_simp
  have n: "nextUnselected staleStepOne = (''B'', True)" by code_simp
  from staleFailed_eq obtain qo err where
    c: "createVersionQueue ranges staleStepOne ''B'' = Inr ((qo, Some err), staleFailed)"
    by blast
  from l v have "backtrack ranges staleFailed = Inl p" by (simp add: backtrack_def)
  with n c show ?thesis by (cases qo) (simp_all add: solveStep_def)
qed

text \<open>
  C7. Not every walk that ends without a version ends in NoVersion. On a solver that has
  solved before, \<^verbatim>\<open>backtrack\<close> reaches a queue the earlier solve left on the stack (\<^verbatim>\<open>Solve\<close>
  does not empty \<^verbatim>\<open>s.versions\<close>) after it has retracted every atom of this solve, the root
  included. The walk of \<^verbatim>\<open>findValidVersion\<close> over that queue, for A, tries A at 1 and ends
  by exhaustion; A has no inbound edge, so \<^verbatim>\<open>getDependenciesOn(q.ref)[0]\<close> panics: \<^verbatim>\<open>fail\<close> is
  not called, no NoVersion is returned, and the solve crashes. (The first solve, on the
  fresh solver, returns R at 1 and A at 2.)
\<close>

theorem findValidVersion_no_inbound_edge:
  "map_option (map_sum id (\<lambda>r. Projects (fst r))) staleFirst =
     Some (Inr [exAtom ''R'' 1, exAtom ''A'' 2]) \<and>
   reachable ranges afterStaleFirst staleRoot [] staleStepOne \<and>
   ref (mem staleRetry 0) = ''A'' \<and>
   current (mem staleRetry 0) = Some 1 \<and>
   getDependenciesOn (sel staleRetry) ''A'' = [] \<and>
   map_sum id fst (fvvLoop ranges staleRetry 0) = Inr False \<and>
   findValidVersion ranges staleRetry 0 = Inl (Panic ''index out of range'') \<and>
   solveStep ranges staleStepOne = Inl (Panic ''index out of range'') \<and>
   map_option (map_sum id fst) (Solve ranges 10 afterStaleFirst staleRoot []) =
     Some (Inl (Panic ''index out of range''))"
proof -
  have a: "map_option (map_sum id (\<lambda>r. Projects (fst r))) staleFirst =
             Some (Inr [exAtom ''R'' 1, exAtom ''A'' 2])"
    by code_simp
  have b: "ref (mem staleRetry 0) = ''A''" "current (mem staleRetry 0) = Some 1"
          "getDependenciesOn (sel staleRetry) ''A'' = []"
          "map_sum id fst (fvvLoop ranges staleRetry 0) = Inr False"
    by code_simp+
  have c: "current (mem staleRetry 0) \<noteq> None" by (simp add: b)
  from b(4) obtain s1 where w: "fvvLoop ranges staleRetry 0 = Inr (False, s1)"
    by (cases "fvvLoop ranges staleRetry 0") auto
  have e: "getDependenciesOn (sel staleRetry) (ref (mem staleRetry 0)) = []" by (simp add: b)
  from findValidVersion_no_edge [OF c w e]
  have f: "findValidVersion ranges staleRetry 0 = Inl (Panic ''index out of range'')" .
  from stale_backtrack_panics [OF f]
  have g: "solveStep ranges staleStepOne = Inl (Panic ''index out of range'')" .
  have h: "map_option (map_sum id fst) (Solve ranges 10 afterStaleFirst staleRoot []) =
             Some (Inl (Panic ''index out of range''))"
    by code_simp
  from a staleStepOne_reachable b f g h show ?thesis by (intro conjI)
qed

end
